theory Spec2Isabelle
  imports Main "HOL-Library.Word"
begin

section \<open>CHash: a chained hash table on an explicit heap\<close>

text \<open>
  The development embeds \<^verbatim>\<open>chash.c\<close> under the LP64 data model of x86-64: \<^verbatim>\<open>unsigned long\<close>
  is a 64-bit word, \<^verbatim>\<open>unsigned int\<close> a 32-bit word, \<^verbatim>\<open>unsigned short\<close> a 16-bit word,
  \<^verbatim>\<open>int\<close> has the largest value \<open>2^31 - 1\<close>, a pointer takes 8 bytes and plain \<^verbatim>\<open>char\<close> is
  signed. A C string is represented by the list of its bytes before the terminator, so
  \<^verbatim>\<open>strlen\<close> is \<open>length\<close> and \<^verbatim>\<open>strcmp(a, b) == 0\<close> is equality of the lists.
  The leading underscore of the private functions \<^verbatim>\<open>_hash\<close>, \<^verbatim>\<open>_clear\<close> and
  \<^verbatim>\<open>_construct\<close> is dropped, and the field \<^verbatim>\<open>size\<close> of \<^verbatim>\<open>t_table\<close> is called
  \<open>size_tab\<close>.
\<close>

subsection \<open>The hash function\<close>

text \<open>
  The conversion of a plain (signed) \<^verbatim>\<open>char\<close> to \<^verbatim>\<open>unsigned long\<close> in
  \<^verbatim>\<open>value * 33 + p_key[counter++]\<close>: a byte below 128 keeps its value, a byte \<open>b\<close> from 128 on
  is the negative number \<open>b - 256\<close>, which wraps around in the unsigned sum.
\<close>

definition char_to_ulong :: "char \<Rightarrow> 64 word" where
  "char_to_ulong c =
     (if of_char c < (128::nat) then of_nat (of_char c) else of_nat (of_char c) - 256)"

text \<open>
  The loop of \<^verbatim>\<open>_hash\<close>. The comparison \<^verbatim>\<open>counter < length\<close> converts the
  \<^verbatim>\<open>unsigned short\<close> to \<^verbatim>\<open>unsigned int\<close>. The index \<open>unat counter\<close> is below the
  truncated length, which is at most the length of the string, so the read is in range.
\<close>

function hash_loop :: "string \<Rightarrow> 16 word \<Rightarrow> 32 word \<Rightarrow> 64 word \<Rightarrow> 64 word" where
  "hash_loop key len counter val =
     (if counter < ucast len
      then hash_loop key len (counter + 1) (val * 33 + char_to_ulong (key ! unat counter))
      else val)"
  by pat_completeness auto

lemma unat_counter_Suc: "(counter :: 32 word) < x \<Longrightarrow> unat (counter + 1) = Suc (unat counter)"
  by unat_arith

termination hash_loop
proof (relation "measure (\<lambda>(key, len, counter, val). unat (ucast len :: 32 word) - unat counter)")
  show "wf (measure (\<lambda>(key :: string, len :: 16 word, counter :: 32 word, val :: 64 word).
          unat (ucast len :: 32 word) - unat counter))"
    by simp
next
  fix key :: string and len :: "16 word" and counter :: "32 word" and val :: "64 word"
  assume lt: "counter < ucast len"
  then have "unat counter < unat (ucast len :: 32 word)"
    by (simp add: word_less_nat_alt)
  then show "((key, len, counter + 1, val * 33 + char_to_ulong (key ! unat counter)),
              (key, len, counter, val))
        \<in> measure (\<lambda>(key, len, counter, val). unat (ucast len :: 32 word) - unat counter)"
    using unat_counter_Suc [OF lt] by simp
qed

declare hash_loop.simps [simp del]

text \<open>\<^verbatim>\<open>_hash\<close>: the length is stored in an \<^verbatim>\<open>unsigned short\<close>, the accumulator starts at 0.\<close>

definition hash :: "string \<Rightarrow> 64 word" where
  "hash key = hash_loop key (of_nat (length key)) 0 0"

text \<open>
  The hash as the specification words it: the accumulator starts at 0 and every byte of the
  string, in order, turns it into accumulator times 33 plus the byte value, modulo \<open>2^64\<close>.
\<close>

definition hash_spec :: "string \<Rightarrow> 64 word" where
  "hash_spec s = foldl (\<lambda>acc c. acc * 33 + of_nat (of_char c)) 0 s"

text \<open>A key of 65536 bytes, none of them zero, all of them ASCII.\<close>

definition long_key :: string where
  "long_key = replicate 65535 (CHR ''b'') @ ''a''"


subsection \<open>Pointers, cells and the heap\<close>

text \<open>
  A pointer is \<^verbatim>\<open>NULL\<close> or an address. A value reference (\<^verbatim>\<open>void *\<close>) is a pointer
  too; the table never follows it. The heap maps the address of every live allocation to
  its contents; \<^verbatim>\<open>free\<close> removes the address, so that a pointer to a released block
  dangles and reading through it is a fault.
\<close>

datatype ptr = NULL | Addr nat

record t_property =
  p_key :: ptr
  p_value :: ptr
  p_next :: ptr

record t_table =
  size_tab :: "64 word"
  p_entries :: ptr

datatype cell =
    Property t_property
  | Table t_table
  | Slots "ptr list"
  | Chars string

type_synonym heap = "nat \<Rightarrow> cell option"

text \<open>What the C standard leaves undefined is a fault of the model.\<close>

datatype fault = NullDeref | BadDeref | BadFree | DivByZero | IntOverflow | OutOfBounds

definition load :: "heap \<Rightarrow> ptr \<Rightarrow> fault + cell" where
  "load h p =
     (case p of
        NULL \<Rightarrow> Inl NullDeref
      | Addr a \<Rightarrow> (case h a of None \<Rightarrow> Inl BadDeref | Some c \<Rightarrow> Inr c))"

definition load_property :: "heap \<Rightarrow> ptr \<Rightarrow> fault + t_property" where
  "load_property h p =
     (case load h p of Inl f \<Rightarrow> Inl f | Inr (Property e) \<Rightarrow> Inr e | Inr _ \<Rightarrow> Inl BadDeref)"

definition load_table :: "heap \<Rightarrow> ptr \<Rightarrow> fault + t_table" where
  "load_table h p =
     (case load h p of Inl f \<Rightarrow> Inl f | Inr (Table t) \<Rightarrow> Inr t | Inr _ \<Rightarrow> Inl BadDeref)"

definition load_chars :: "heap \<Rightarrow> ptr \<Rightarrow> fault + string" where
  "load_chars h p =
     (case load h p of Inl f \<Rightarrow> Inl f | Inr (Chars s) \<Rightarrow> Inr s | Inr _ \<Rightarrow> Inl BadDeref)"

definition load_slot :: "heap \<Rightarrow> ptr \<Rightarrow> nat \<Rightarrow> fault + ptr" where
  "load_slot h p i =
     (case load h p of
        Inl f \<Rightarrow> Inl f
      | Inr (Slots ss) \<Rightarrow> if i < length ss then Inr (ss ! i) else Inl OutOfBounds
      | Inr _ \<Rightarrow> Inl BadDeref)"

definition store_property :: "heap \<Rightarrow> ptr \<Rightarrow> t_property \<Rightarrow> fault + heap" where
  "store_property h p e =
     (case load_property h p of
        Inl f \<Rightarrow> Inl f
      | Inr _ \<Rightarrow> (case p of NULL \<Rightarrow> Inl NullDeref | Addr a \<Rightarrow> Inr (h(a \<mapsto> Property e))))"

definition store_table :: "heap \<Rightarrow> ptr \<Rightarrow> t_table \<Rightarrow> fault + heap" where
  "store_table h p t =
     (case load_table h p of
        Inl f \<Rightarrow> Inl f
      | Inr _ \<Rightarrow> (case p of NULL \<Rightarrow> Inl NullDeref | Addr a \<Rightarrow> Inr (h(a \<mapsto> Table t))))"

definition store_slot :: "heap \<Rightarrow> ptr \<Rightarrow> nat \<Rightarrow> ptr \<Rightarrow> fault + heap" where
  "store_slot h p i q =
     (case load h p of
        Inl f \<Rightarrow> Inl f
      | Inr (Slots ss) \<Rightarrow>
          if i < length ss
          then (case p of NULL \<Rightarrow> Inl NullDeref | Addr a \<Rightarrow> Inr (h(a \<mapsto> Slots (ss[i := q]))))
          else Inl OutOfBounds
      | Inr _ \<Rightarrow> Inl BadDeref)"

text \<open>\<^verbatim>\<open>p->p_next = q\<close>.\<close>

definition store_next :: "heap \<Rightarrow> ptr \<Rightarrow> ptr \<Rightarrow> fault + heap" where
  "store_next h p q =
     (case load_property h p of
        Inl f \<Rightarrow> Inl f
      | Inr e \<Rightarrow> store_property h p (e\<lparr>p_next := q\<rparr>))"

text \<open>
  \<^verbatim>\<open>malloc\<close> is not computed by the model: what each call returns (\<^verbatim>\<open>NULL\<close>, or the
  address of a block that is not live) is an argument of the operation that calls it, so
  that the theorems hold for every allocator. \<open>alloc h r c\<close> makes the block returned as
  \<open>r\<close> live, with contents \<open>c\<close>.
\<close>

definition alloc :: "heap \<Rightarrow> ptr \<Rightarrow> cell \<Rightarrow> heap" where
  "alloc h r c = (case r of NULL \<Rightarrow> h | Addr a \<Rightarrow> h(a \<mapsto> c))"

text \<open>\<^verbatim>\<open>free\<close>: nothing happens on \<^verbatim>\<open>NULL\<close>; releasing a block that is not live is a fault.\<close>

definition free :: "heap \<Rightarrow> ptr \<Rightarrow> fault + heap" where
  "free h p =
     (case p of
        NULL \<Rightarrow> Inr h
      | Addr a \<Rightarrow> if h a = None then Inl BadFree else Inr (h(a := None)))"

subsection \<open>Entries\<close>

text \<open>
  \<^verbatim>\<open>_clear\<close>: reads \<^verbatim>\<open>p_entry->p_key\<close> first, releases the key, resets the member, then
  releases the entry. It never looks at \<^verbatim>\<open>p_next\<close>, and its assignment to the parameter
  \<^verbatim>\<open>p_entry\<close> changes nothing outside.
\<close>

definition clear :: "heap \<Rightarrow> ptr \<Rightarrow> fault + heap" where
  "clear h p_entry =
     (case load_property h p_entry of
        Inl f \<Rightarrow> Inl f
      | Inr e \<Rightarrow>
          (case (if p_key e \<noteq> NULL
                 then (case free h (p_key e) of
                         Inl f \<Rightarrow> Inl f
                       | Inr h1 \<Rightarrow> store_property h1 p_entry (e\<lparr>p_key := NULL\<rparr>))
                 else Inr h) of
             Inl f \<Rightarrow> Inl f
           | Inr h2 \<Rightarrow> if p_entry \<noteq> NULL then free h2 p_entry else Inr h2))"

text \<open>
  \<^verbatim>\<open>_construct\<close>. \<open>mr\<close> holds what its two calls of \<^verbatim>\<open>malloc\<close> return, for the entry
  and for the copy of the key. The result of the second call is stored through
  \<^verbatim>\<open>p_entry\<close> before \<^verbatim>\<open>p_entry\<close> is tested. The members of a fresh entry that are not
  yet assigned are written as \<^verbatim>\<open>NULL\<close>; no path reads them before they are assigned.
\<close>

definition construct :: "heap \<Rightarrow> ptr \<times> ptr \<Rightarrow> string \<Rightarrow> ptr \<Rightarrow> fault + (ptr \<times> heap)" where
  "construct h mr key val =
     (let p_entry = fst mr;
          h1 = alloc h p_entry (Property \<lparr>p_key = NULL, p_value = NULL, p_next = NULL\<rparr>);
          h2 = alloc h1 (snd mr) (Chars [])
      in case load_property h2 p_entry of
           Inl f \<Rightarrow> Inl f
         | Inr e \<Rightarrow>
             (case store_property h2 p_entry (e\<lparr>p_key := snd mr\<rparr>) of
                Inl f \<Rightarrow> Inl f
              | Inr h3 \<Rightarrow>
                  if p_entry = NULL \<or> snd mr = NULL
                  then (case clear h3 p_entry of Inl f \<Rightarrow> Inl f | Inr h4 \<Rightarrow> Inr (NULL, h4))
                  else Inr (p_entry,
                         alloc (alloc h3 (snd mr) (Chars key)) p_entry
                           (Property \<lparr>p_key = snd mr, p_value = val, p_next = NULL\<rparr>))))"

subsection \<open>The table operations\<close>

text \<open>
  The slot of a key: \<^verbatim>\<open>_hash(p_key) % p_table->size\<close> is computed in 64 bits and stored in
  an \<^verbatim>\<open>unsigned int\<close>.
\<close>

definition slot_of :: "64 word \<Rightarrow> string \<Rightarrow> nat" where
  "slot_of sz key = unat (ucast (hash key mod sz) :: 32 word)"

text \<open>
  The loop of \<^verbatim>\<open>ch_put\<close>, with the statements after it in the branch that leaves the
  loop. A chain in the heap may be cyclic, and then the loop does not return.
\<close>

partial_function (option) put_loop ::
  "heap \<Rightarrow> ptr \<times> ptr \<Rightarrow> ptr \<Rightarrow> ptr \<Rightarrow> string \<Rightarrow> ptr \<Rightarrow> (fault + (ptr \<times> heap)) option" where
  [code]: "put_loop h mr p_previous p_entry key val =
     (if p_entry \<noteq> NULL
      then (case load_property h p_entry of
              Inl f \<Rightarrow> Some (Inl f)
            | Inr e \<Rightarrow>
                (case load_chars h (p_key e) of
                   Inl f \<Rightarrow> Some (Inl f)
                 | Inr s \<Rightarrow>
                     if s = key
                     then (case store_property h p_entry (e\<lparr>p_value := val\<rparr>) of
                             Inl f \<Rightarrow> Some (Inl f)
                           | Inr h' \<Rightarrow> Some (Inr (val, h')))
                     else put_loop h mr p_entry (p_next e) key val))
      else (case construct h mr key val of
              Inl f \<Rightarrow> Some (Inl f)
            | Inr (q, h1) \<Rightarrow>
                (case store_next h1 p_previous q of
                   Inl f \<Rightarrow> Some (Inl f)
                 | Inr h2 \<Rightarrow> Some (Inr (val, h2)))))"

text \<open>
  \<^verbatim>\<open>ch_put\<close>. A remainder by zero is a fault. \<^verbatim>\<open>p_previous\<close> has no value before the
  loop, whose body runs at least once; it is written as \<^verbatim>\<open>NULL\<close>.
\<close>

definition ch_put ::
  "heap \<Rightarrow> ptr \<times> ptr \<Rightarrow> ptr \<Rightarrow> string \<Rightarrow> ptr \<Rightarrow> (fault + (ptr \<times> heap)) option" where
  "ch_put h mr p_table key val =
     (case load_table h p_table of
        Inl f \<Rightarrow> Some (Inl f)
      | Inr t \<Rightarrow>
          if size_tab t = 0 then Some (Inl DivByZero)
          else (case load_slot h (p_entries t) (slot_of (size_tab t) key) of
                  Inl f \<Rightarrow> Some (Inl f)
                | Inr p_entry \<Rightarrow>
                    if p_entry = NULL
                    then (case construct h mr key val of
                            Inl f \<Rightarrow> Some (Inl f)
                          | Inr (q, h1) \<Rightarrow>
                              (case store_slot h1 (p_entries t) (slot_of (size_tab t) key) q of
                                 Inl f \<Rightarrow> Some (Inl f)
                               | Inr h2 \<Rightarrow> Some (Inr (val, h2))))
                    else put_loop h mr NULL p_entry key val))"

partial_function (option) get_loop :: "heap \<Rightarrow> ptr \<Rightarrow> string \<Rightarrow> (fault + ptr) option" where
  [code]: "get_loop h p_entry key =
     (if p_entry \<noteq> NULL
      then (case load_property h p_entry of
              Inl f \<Rightarrow> Some (Inl f)
            | Inr e \<Rightarrow>
                (case load_chars h (p_key e) of
                   Inl f \<Rightarrow> Some (Inl f)
                 | Inr s \<Rightarrow> if s = key then Some (Inr (p_value e)) else get_loop h (p_next e) key))
      else Some (Inr NULL))"

definition ch_get :: "heap \<Rightarrow> ptr \<Rightarrow> string \<Rightarrow> (fault + ptr) option" where
  "ch_get h p_table key =
     (case load_table h p_table of
        Inl f \<Rightarrow> Some (Inl f)
      | Inr t \<Rightarrow>
          if size_tab t = 0 then Some (Inl DivByZero)
          else (case load_slot h (p_entries t) (slot_of (size_tab t) key) of
                  Inl f \<Rightarrow> Some (Inl f)
                | Inr p_entry \<Rightarrow>
                    if p_entry = NULL then Some (Inr NULL) else get_loop h p_entry key))"

text \<open>The loop of \<^verbatim>\<open>ch_delete\<close> returns \<^verbatim>\<open>p_previous\<close> and \<^verbatim>\<open>p_current\<close>.\<close>

partial_function (option) delete_loop ::
  "heap \<Rightarrow> ptr \<Rightarrow> ptr \<Rightarrow> string \<Rightarrow> (fault + (ptr \<times> ptr)) option" where
  [code]: "delete_loop h p_previous p_current key =
     (if p_current \<noteq> NULL
      then (case load_property h p_current of
              Inl f \<Rightarrow> Some (Inl f)
            | Inr e \<Rightarrow>
                (case load_chars h (p_key e) of
                   Inl f \<Rightarrow> Some (Inl f)
                 | Inr s \<Rightarrow>
                     if s \<noteq> key then delete_loop h p_current (p_next e) key
                     else Some (Inr (p_previous, p_current))))
      else Some (Inr (p_previous, p_current)))"

definition ch_delete :: "heap \<Rightarrow> ptr \<Rightarrow> string \<Rightarrow> (fault + (ptr \<times> heap)) option" where
  "ch_delete h p_table key =
     (case load_table h p_table of
        Inl f \<Rightarrow> Some (Inl f)
      | Inr t \<Rightarrow>
          if size_tab t = 0 then Some (Inl DivByZero)
          else (case load_slot h (p_entries t) (slot_of (size_tab t) key) of
                  Inl f \<Rightarrow> Some (Inl f)
                | Inr p_first \<Rightarrow>
                    (case delete_loop h NULL p_first key of
                       None \<Rightarrow> None
                     | Some (Inl f) \<Rightarrow> Some (Inl f)
                     | Some (Inr (p_previous, p_current)) \<Rightarrow>
                         if p_current = NULL then Some (Inr (NULL, h))
                         else Some
                           (case load_property h p_current of
                              Inl f \<Rightarrow> Inl f
                            | Inr e \<Rightarrow>
                                (case (if p_previous = NULL
                                       then store_slot h (p_entries t) (slot_of (size_tab t) key)
                                              (if p_next e = NULL then NULL else p_next e)
                                       else store_next h p_previous
                                              (if p_next e = NULL then NULL else p_next e)) of
                                   Inl f \<Rightarrow> Inl f
                                 | Inr h1 \<Rightarrow>
                                     (case clear h1 p_current of
                                        Inl f \<Rightarrow> Inl f
                                      | Inr h2 \<Rightarrow> Inr (p_value e, h2)))))))"

text \<open>
  The loop of \<^verbatim>\<open>ch_clear\<close>. The counter is an \<^verbatim>\<open>int\<close> that starts at 0, modelled by a
  natural number; \<^verbatim>\<open>counter++\<close> at the largest \<^verbatim>\<open>int\<close> is a fault. The table is read anew
  in every round.
\<close>

function clear_loop :: "heap \<Rightarrow> ptr \<Rightarrow> nat \<Rightarrow> fault + heap" where
  "clear_loop h p_table counter =
     (case load_table h p_table of
        Inl f \<Rightarrow> Inl f
      | Inr t \<Rightarrow>
          if counter < unat (size_tab t)
          then (case load_slot h (p_entries t) counter of
                  Inl f \<Rightarrow> Inl f
                | Inr p_entry \<Rightarrow>
                    if 2 ^ 31 - 1 \<le> counter then Inl IntOverflow
                    else if p_entry \<noteq> NULL
                    then (case clear h p_entry of
                            Inl f \<Rightarrow> Inl f
                          | Inr h' \<Rightarrow> clear_loop h' p_table (counter + 1))
                    else clear_loop h p_table (counter + 1))
          else Inr h)"
  by pat_completeness auto
termination
  by (relation "measure (\<lambda>(h, p_table, counter). 2 ^ 31 - counter)") auto

declare clear_loop.simps [simp del]

definition ch_clear :: "heap \<Rightarrow> ptr \<Rightarrow> fault + heap" where
  "ch_clear h p_table = clear_loop h p_table 0"

text \<open>
  \<^verbatim>\<open>ch_destroy\<close>. Its first test divides the size of a pointer by the size of a
  \<^verbatim>\<open>t_property\<close>, a structure of three pointers; \<^verbatim>\<open>sizeof\<close> does not evaluate its operand.
\<close>

definition sizeof_pointer :: nat where
  "sizeof_pointer = 8"

definition sizeof_t_property :: nat where
  "sizeof_t_property = 3 * sizeof_pointer"

definition ch_destroy :: "heap \<Rightarrow> ptr \<Rightarrow> fault + heap" where
  "ch_destroy h p_table =
     (case (if sizeof_pointer div sizeof_t_property > 0 then ch_clear h p_table else Inr h) of
        Inl f \<Rightarrow> Inl f
      | Inr h1 \<Rightarrow>
          (case load_table h1 p_table of
             Inl f \<Rightarrow> Inl f
           | Inr t \<Rightarrow>
               (case (if p_entries t \<noteq> NULL
                      then (case free h1 (p_entries t) of
                              Inl f \<Rightarrow> Inl f
                            | Inr h2 \<Rightarrow> store_table h2 p_table (t\<lparr>p_entries := NULL\<rparr>))
                      else Inr h1) of
                  Inl f \<Rightarrow> Inl f
                | Inr h3 \<Rightarrow> if p_table \<noteq> NULL then free h3 p_table else Inr h3)))"

text \<open>
  The loop of \<^verbatim>\<open>ch_create\<close> that empties the slots, with an \<^verbatim>\<open>int\<close> counter as in
  \<^verbatim>\<open>ch_clear\<close>.
\<close>

function create_loop :: "heap \<Rightarrow> ptr \<Rightarrow> nat \<Rightarrow> 64 word \<Rightarrow> fault + heap" where
  "create_loop h p_table counter table_size =
     (if counter < unat table_size
      then (case load_table h p_table of
              Inl f \<Rightarrow> Inl f
            | Inr t \<Rightarrow>
                (case store_slot h (p_entries t) counter NULL of
                   Inl f \<Rightarrow> Inl f
                 | Inr h' \<Rightarrow>
                     if 2 ^ 31 - 1 \<le> counter then Inl IntOverflow
                     else create_loop h' p_table (counter + 1) table_size))
      else Inr h)"
  by pat_completeness auto
termination
  by (relation "measure (\<lambda>(h, p_table, counter, table_size). unat table_size - counter)") auto

declare create_loop.simps [simp del]

text \<open>
  \<^verbatim>\<open>ch_create\<close>. \<open>mr\<close> holds what the two calls of \<^verbatim>\<open>malloc\<close> return, for the table and
  for the slot array. The array is requested with \<^verbatim>\<open>sizeof(t_property *) * table_size\<close>
  bytes, a product modulo \<open>2^64\<close>, and holds as many slots as fit; \<open>junk i\<close> is the
  indeterminate value a fresh slot \<open>i\<close> holds. Both members of the table are assigned
  through \<^verbatim>\<open>p_table\<close> before \<^verbatim>\<open>p_table\<close> is tested.
\<close>

definition ch_create ::
  "heap \<Rightarrow> ptr \<times> ptr \<Rightarrow> (nat \<Rightarrow> ptr) \<Rightarrow> 64 word \<Rightarrow> fault + (ptr \<times> heap)" where
  "ch_create h mr junk table_size =
     (let p_table = fst mr;
          h1 = alloc h p_table (Table \<lparr>size_tab = 0, p_entries = NULL\<rparr>);
          h2 = alloc h1 (snd mr)
                 (Slots (map junk [0 ..< unat (of_nat sizeof_pointer * table_size) div sizeof_pointer]))
      in case store_table h2 p_table \<lparr>size_tab = table_size, p_entries = snd mr\<rparr> of
           Inl f \<Rightarrow> Inl f
         | Inr h3 \<Rightarrow>
             if p_table = NULL \<or> snd mr = NULL
             then (case ch_destroy h3 p_table of Inl f \<Rightarrow> Inl f | Inr h4 \<Rightarrow> Inr (NULL, h4))
             else (case create_loop h3 p_table 0 table_size of
                     Inl f \<Rightarrow> Inl f
                   | Inr h4 \<Rightarrow> Inr (p_table, h4)))"

subsection \<open>The contents of a table\<close>

text \<open>
  A node describes one entry of a chain: the address of the entry, the address of its copy
  of the key, the key and the value reference. \<open>chain h ns\<close> holds when the heap holds the
  entries \<open>ns\<close> linked in this order, the last one with no successor; a slot that holds
  this chain holds \<open>head_ptr ns\<close>.
\<close>

record node =
  n_addr :: nat
  n_kaddr :: nat
  n_key :: string
  n_value :: ptr

fun head_ptr :: "node list \<Rightarrow> ptr" where
  "head_ptr [] = NULL"
| "head_ptr (n # ns) = Addr (n_addr n)"

definition node_cell :: "node \<Rightarrow> ptr \<Rightarrow> cell" where
  "node_cell n nxt = Property \<lparr>p_key = Addr (n_kaddr n), p_value = n_value n, p_next = nxt\<rparr>"

fun chain :: "heap \<Rightarrow> node list \<Rightarrow> bool" where
  "chain h [] = True"
| "chain h (n # ns) =
     (h (n_addr n) = Some (node_cell n (head_ptr ns)) \<and>
      h (n_kaddr n) = Some (Chars (n_key n)) \<and> chain h ns)"

definition cells :: "node list \<Rightarrow> nat list" where
  "cells ns = concat (map (\<lambda>n. [n_addr n, n_kaddr n]) ns)"

text \<open>The value reference a chain holds for a key, \<^verbatim>\<open>NULL\<close> when it holds none.\<close>

fun lookup :: "node list \<Rightarrow> string \<Rightarrow> ptr" where
  "lookup [] key = NULL"
| "lookup (n # ns) key = (if n_key n = key then n_value n else lookup ns key)"

text \<open>
  \<open>table_abs h t arr css\<close>: the heap holds at \<open>t\<close> a table of \<open>length css\<close> slots with
  its slot array at \<open>arr\<close>, slot \<open>i\<close> holds the chain \<open>css ! i\<close>, and no block is used
  twice.
\<close>

definition table_abs :: "heap \<Rightarrow> nat \<Rightarrow> nat \<Rightarrow> node list list \<Rightarrow> bool" where
  "table_abs h t arr css \<longleftrightarrow>
     length css < 2 ^ 64 \<and>
     h t = Some (Table \<lparr>size_tab = of_nat (length css), p_entries = Addr arr\<rparr>) \<and>
     h arr = Some (Slots (map head_ptr css)) \<and>
     t \<noteq> arr \<and>
     (\<forall>i<length css.
        chain h (css ! i) \<and> distinct (cells (css ! i)) \<and>
        t \<notin> set (cells (css ! i)) \<and> arr \<notin> set (cells (css ! i)) \<and>
        (\<forall>j<length css. i \<noteq> j \<longrightarrow> set (cells (css ! i)) \<inter> set (cells (css ! j)) = {}))"

text \<open>
  The keys of a table are in order when no chain holds a key twice and every entry is in
  the slot the operations compute for its key.
\<close>

definition keys_ok :: "node list list \<Rightarrow> bool" where
  "keys_ok css \<longleftrightarrow>
     (\<forall>i<length css.
        distinct (map n_key (css ! i)) \<and>
        (\<forall>n\<in>set (css ! i). slot_of (of_nat (length css)) (n_key n) = i))"

definition table_inv :: "heap \<Rightarrow> nat \<Rightarrow> nat \<Rightarrow> node list list \<Rightarrow> bool" where
  "table_inv h t arr css \<longleftrightarrow> table_abs h t arr css \<and> keys_ok css \<and> css \<noteq> []"

subsection \<open>The heaps the operations produce\<close>

text \<open>The node of the entry a call of \<^verbatim>\<open>ch_put\<close> creates, when \<^verbatim>\<open>malloc\<close> returns \<open>a\<close> and \<open>ka\<close>.\<close>

definition new_node :: "nat \<Rightarrow> nat \<Rightarrow> string \<Rightarrow> ptr \<Rightarrow> node" where
  "new_node a ka key val = \<lparr>n_addr = a, n_kaddr = ka, n_key = key, n_value = val\<rparr>"

text \<open>
  The heap after a new entry is linked into slot \<open>i\<close>: the new blocks, and the link to the
  entry, which is the slot itself when its chain is empty and the last entry of the chain
  otherwise.
\<close>

definition put_heap :: "heap \<Rightarrow> nat \<Rightarrow> node list list \<Rightarrow> nat \<Rightarrow> node \<Rightarrow> heap" where
  "put_heap h arr css i new =
     (let h1 = h(n_kaddr new \<mapsto> Chars (n_key new), n_addr new \<mapsto> node_cell new NULL)
      in if css ! i = []
         then h1(arr \<mapsto> Slots ((map head_ptr css)[i := Addr (n_addr new)]))
         else h1(n_addr (last (css ! i)) \<mapsto> node_cell (last (css ! i)) (Addr (n_addr new))))"

text \<open>
  The heap after the entry \<open>n\<close> of slot \<open>i\<close>, between the entries \<open>pre\<close> and \<open>post\<close>, is
  unlinked and released.
\<close>

definition delete_heap :: "heap \<Rightarrow> nat \<Rightarrow> node list list \<Rightarrow> nat \<Rightarrow> node list \<Rightarrow> node \<Rightarrow> node list \<Rightarrow> heap" where
  "delete_heap h arr css i pre n post =
     (let h1 = (if pre = []
                then h(arr \<mapsto> Slots ((map head_ptr css)[i := head_ptr post]))
                else h(n_addr (last pre) \<mapsto> node_cell (last pre) (head_ptr post)))
      in h1(n_kaddr n := None, n_addr n := None))"

text \<open>The heap with a fresh table of \<open>C\<close> empty slots.\<close>

definition empty_table :: "heap \<Rightarrow> nat \<Rightarrow> nat \<Rightarrow> 64 word \<Rightarrow> heap" where
  "empty_table h t arr C =
     h(t \<mapsto> Table \<lparr>size_tab = C, p_entries = Addr arr\<rparr>, arr \<mapsto> Slots (replicate (unat C) NULL))"

subsection \<open>Sequences of puts, the specified destroy, and example tables\<close>

text \<open>
  An example: a table of one slot whose chain holds the keys \<open>a\<close>, with a value, and \<open>b\<close>,
  with the value reference \<^verbatim>\<open>NULL\<close>.
\<close>

definition ex_heap :: heap where
  "ex_heap =
     [1 \<mapsto> Table \<lparr>size_tab = 1, p_entries = Addr 2\<rparr>,
      2 \<mapsto> Slots [Addr 3],
      3 \<mapsto> Property \<lparr>p_key = Addr 4, p_value = Addr 100, p_next = Addr 5\<rparr>,
      4 \<mapsto> Chars ''a'',
      5 \<mapsto> Property \<lparr>p_key = Addr 6, p_value = NULL, p_next = NULL\<rparr>,
      6 \<mapsto> Chars ''b'']"

definition ex_a :: node where
  "ex_a = \<lparr>n_addr = 3, n_kaddr = 4, n_key = ''a'', n_value = Addr 100\<rparr>"

definition ex_b :: node where
  "ex_b = \<lparr>n_addr = 5, n_kaddr = 6, n_key = ''b'', n_value = NULL\<rparr>"

text \<open>
  A sequence of calls of \<^verbatim>\<open>ch_put\<close> whose allocations all succeed: the call for the node
  \<open>n\<close> puts \<open>n_value n\<close> under \<open>n_key n\<close>, and \<^verbatim>\<open>malloc\<close> returns it \<open>n_addr n\<close> for the
  entry and \<open>n_kaddr n\<close> for the copy of the key. A fault ends the sequence.
\<close>

fun ch_puts :: "heap \<Rightarrow> ptr \<Rightarrow> node list \<Rightarrow> (fault + heap) option" where
  "ch_puts h p_table [] = Some (Inr h)"
| "ch_puts h p_table (n # ns) =
     (case ch_put h (Addr (n_addr n), Addr (n_kaddr n)) p_table (n_key n) (n_value n) of
        None \<Rightarrow> None
      | Some (Inl f) \<Rightarrow> Some (Inl f)
      | Some (Inr (r, h')) \<Rightarrow> ch_puts h' p_table ns)"

text \<open>A third example node.\<close>

definition ex_c :: node where
  "ex_c = \<lparr>n_addr = 5, n_kaddr = 6, n_key = ''c'', n_value = Addr 200\<rparr>"

text \<open>
  Destroy as the specification words it: the equivalent of clear, then the release of the
  slot array and of the table itself.
\<close>

definition destroy_spec :: "heap \<Rightarrow> ptr \<Rightarrow> fault + heap" where
  "destroy_spec h p_table =
     (case ch_clear h p_table of
        Inl f \<Rightarrow> Inl f
      | Inr h1 \<Rightarrow>
          (case load_table h1 p_table of
             Inl f \<Rightarrow> Inl f
           | Inr t \<Rightarrow>
               (case free h1 (p_entries t) of
                  Inl f \<Rightarrow> Inl f
                | Inr h2 \<Rightarrow> free h2 p_table)))"

text \<open>The example table after \<^verbatim>\<open>ch_clear\<close>: the first entry and its key are released.\<close>

definition ex_cleared :: heap where
  "ex_cleared = ex_heap(4 := None, 3 := None)"

text \<open>
  A run on a table of two slots: the table as created, after a put of the key \<open>a\<close>, which
  belongs to slot 1, after \<^verbatim>\<open>ch_clear\<close>, and after a put of the key \<open>b\<close>, which belongs to
  slot 0, for which \<^verbatim>\<open>malloc\<close> returns the two blocks that \<^verbatim>\<open>ch_clear\<close> released.
\<close>

definition run_created :: heap where
  "run_created =
     [1 \<mapsto> Table \<lparr>size_tab = 2, p_entries = Addr 2\<rparr>, 2 \<mapsto> Slots [NULL, NULL]]"

definition run_put :: heap where
  "run_put =
     [1 \<mapsto> Table \<lparr>size_tab = 2, p_entries = Addr 2\<rparr>,
      2 \<mapsto> Slots [NULL, Addr 3],
      3 \<mapsto> Property \<lparr>p_key = Addr 4, p_value = Addr 100, p_next = NULL\<rparr>,
      4 \<mapsto> Chars ''a'']"

definition run_cleared :: heap where
  "run_cleared =
     [1 \<mapsto> Table \<lparr>size_tab = 2, p_entries = Addr 2\<rparr>, 2 \<mapsto> Slots [NULL, Addr 3]]"

definition run_reused :: heap where
  "run_reused =
     [1 \<mapsto> Table \<lparr>size_tab = 2, p_entries = Addr 2\<rparr>,
      2 \<mapsto> Slots [Addr 3, Addr 3],
      3 \<mapsto> Property \<lparr>p_key = Addr 4, p_value = Addr 200, p_next = NULL\<rparr>,
      4 \<mapsto> Chars ''b'']"

definition run_b :: node where
  "run_b = \<lparr>n_addr = 3, n_kaddr = 4, n_key = ''b'', n_value = Addr 200\<rparr>"

subsection \<open>What the hash function computes\<close>

lemma unat_ucast_len: "unat (ucast (len :: 16 word) :: 32 word) = unat len"
  by (simp add: unsigned_ucast_eq take_bit_nat_eq_self_iff)
     (rule order_less_le_trans [OF unsigned_less], simp)

lemma hash_loop_foldl:
  assumes "unat len \<le> length key" and "unat counter \<le> unat len"
  shows "hash_loop key len counter val =
         foldl (\<lambda>acc c. acc * 33 + char_to_ulong c) val
           (drop (unat counter) (take (unat len) key))"
  using assms
proof (induction key len counter val rule: hash_loop.induct)
  case (1 key len counter val)
  show ?case
  proof (cases "counter < ucast len")
    case True
    then have lt: "unat counter < unat len"
      using unat_ucast_len [of len] by (simp add: word_less_nat_alt)
    have suc: "unat (counter + 1) = Suc (unat counter)"
      using True by (rule unat_counter_Suc)
    have dr: "drop (unat counter) (take (unat len) key) =
          key ! unat counter # drop (Suc (unat counter)) (take (unat len) key)"
      using lt "1.prems" by (metis Cons_nth_drop_Suc length_take min.absorb2 nth_take)
    have "hash_loop key len counter val =
          hash_loop key len (counter + 1) (val * 33 + char_to_ulong (key ! unat counter))"
      using True by (subst hash_loop.simps) simp
    also have "\<dots> = foldl (\<lambda>acc c. acc * 33 + char_to_ulong c)
          (val * 33 + char_to_ulong (key ! unat counter))
          (drop (unat (counter + 1)) (take (unat len) key))"
      using "1.IH" [OF True] "1.prems" lt suc by simp
    finally show ?thesis
      using dr suc by simp
  next
    case False
    then have "unat len \<le> unat counter"
      using unat_ucast_len [of len] by (simp add: word_less_nat_alt)
    then show ?thesis
      using False by (subst hash_loop.simps) simp
  qed
qed

lemma hash_foldl:
  "hash key =
   foldl (\<lambda>acc c. acc * 33 + char_to_ulong c) 0 (take (length key mod 65536) key)"
proof -
  have u: "unat (of_nat (length key) :: 16 word) = length key mod 65536"
    by (simp add: unat_of_nat)
  have "unat (of_nat (length key) :: 16 word) \<le> length key"
    unfolding u by simp
  then show ?thesis
    unfolding hash_def using hash_loop_foldl [of "of_nat (length key)" key 0 0] u by simp
qed

lemma foldl_ascii:
  "\<forall>c\<in>set s. of_char c < (128::nat) \<Longrightarrow>
   foldl (\<lambda>acc c. acc * 33 + char_to_ulong c) a s =
   foldl (\<lambda>acc c. acc * 33 + of_nat (of_char c)) a s"
  by (induction s arbitrary: a) (simp_all add: char_to_ulong_def)

lemma even_foldl_b:
  "even a \<Longrightarrow>
   even (foldl (\<lambda>acc c. acc * 33 + (of_nat (of_char c) :: 64 word)) a (replicate n (CHR ''b'')))"
  by (induction n arbitrary: a) simp_all

lemma hash_spec_long_key_odd: "odd (hash_spec long_key)"
  using even_foldl_b [of 0 65535] by (simp add: hash_spec_def long_key_def)

lemma hash_long_key: "hash long_key = 0"
  by (simp add: hash_foldl long_key_def)

text \<open>
  C8, as amended. For every key shorter than 65536 bytes whose bytes are all below 128, the
  hash is the accumulation the specification describes (start at 0, accumulator times 33 plus
  the byte value, modulo \<open>2^64\<close>); the hash is a function of the key, so equal keys hash
  equally; and the empty key hashes to 0.
\<close>

theorem hash_refines_spec:
  assumes "length key < 65536" and "\<forall>c\<in>set key. of_char c < (128::nat)"
  shows "hash key = hash_spec key \<and> (\<forall>key'. key = key' \<longrightarrow> hash key = hash key') \<and> hash [] = 0"
proof -
  have "take (length key mod 65536) key = key"
    using assms(1) by simp
  then have "hash key = hash_spec key"
    using foldl_ascii [OF assms(2), of 0] by (simp add: hash_foldl hash_spec_def)
  moreover have "hash [] = 0"
    by (simp add: hash_foldl)
  ultimately show ?thesis
    by simp
qed

theorem hash_refines_spec_witness:
  "length ''value 1'' < 65536 \<and> hash ''value 1'' = hash_spec ''value 1'' \<and>
   hash ''value 1'' = 156321748654"
  using hash_refines_spec [of "''value 1''"] by (simp add: hash_spec_def)

text \<open>
  A byte from 128 on is added as a negative \<^verbatim>\<open>char\<close>, not as its byte value.
\<close>

lemma hash_high_byte: "hash [CHR 0xE9] = - 23 \<and> hash_spec [CHR 0xE9] = 233"
  by (simp add: hash_foldl hash_spec_def char_to_ulong_def)

text \<open>
  The claim as stated fails: the length is truncated to 16 bits, so of a key of 65536 bytes
  no byte is hashed, while the accumulation over all its bytes is odd.
\<close>

theorem hash_long_key_counterexample:
  "hash long_key = 0 \<and> hash_spec long_key \<noteq> 0 \<and> hash long_key \<noteq> hash_spec long_key"
proof -
  have "hash_spec long_key \<noteq> 0"
    using hash_spec_long_key_odd by fastforce
  then show ?thesis
    by (simp add: hash_long_key)
qed


subsection \<open>Chains in the heap\<close>

lemmas heap_defs = load_def load_property_def load_table_def load_chars_def load_slot_def
  store_property_def store_table_def store_slot_def store_next_def alloc_def free_def

lemma chain_allocated: "chain h ns \<Longrightarrow> x \<in> set (cells ns) \<Longrightarrow> h x \<noteq> None"
  by (induction ns) (auto simp: cells_def)

lemma chain_frame:
  "chain h ns \<Longrightarrow> (\<And>x. x \<in> set (cells ns) \<Longrightarrow> h' x = h x) \<Longrightarrow> chain h' ns"
  by (induction ns) (auto simp: cells_def)

lemma head_ptr_append: "head_ptr (xs @ ys) = (if xs = [] then head_ptr ys else head_ptr xs)"
  by (cases xs) simp_all

lemma get_loop_chain: "chain h ns \<Longrightarrow> get_loop h (head_ptr ns) key = Some (Inr (lookup ns key))"
proof (induction ns)
  case Nil
  show ?case by (subst get_loop.simps) simp
next
  case (Cons n ns)
  then show ?case
    by (subst get_loop.simps) (simp add: heap_defs node_cell_def)
qed

lemma unat_of_nat_size: "n < 2 ^ 64 \<Longrightarrow> unat (of_nat n :: 64 word) = n"
  by (simp add: unat_of_nat)

lemma of_nat_size_nonzero: "0 < n \<Longrightarrow> n < 2 ^ 64 \<Longrightarrow> (of_nat n :: 64 word) \<noteq> 0"
  using unat_of_nat_size [of n] by (metis unat_0 less_numeral_extra(3))

lemma slot_of_less:
  assumes "0 < n" and "n < 2 ^ 64"
  shows "slot_of (of_nat n) key < n"
proof -
  have n: "unat (of_nat n :: 64 word) = n"
    using assms(2) by (rule unat_of_nat_size)
  have nz: "(of_nat n :: 64 word) \<noteq> 0"
    using assms by (rule of_nat_size_nonzero)
  have "unat (ucast (hash key mod of_nat n :: 64 word) :: 32 word) \<le> unat (hash key mod of_nat n :: 64 word)"
    by (simp add: unsigned_ucast_eq)
  also have "\<dots> < unat (of_nat n :: 64 word)"
    using nz by (simp add: unat_mod_distrib word_neq_0_conv unat_gt_0)
  finally show ?thesis
    using n by (simp add: slot_of_def)
qed

lemma ch_get_lookup:
  assumes "table_abs h t arr css" and "css \<noteq> []"
  shows "ch_get h (Addr t) key = Some (Inr (lookup (css ! slot_of (of_nat (length css)) key) key))"
proof -
  let ?i = "slot_of (of_nat (length css)) key"
  have len: "length css < 2 ^ 64" "0 < length css"
    using assms by (simp_all add: table_abs_def)
  have i: "?i < length css"
    using len by (simp add: slot_of_less)
  have nz: "(of_nat (length css) :: 64 word) \<noteq> 0"
    using len by (simp add: of_nat_size_nonzero)
  have ch: "chain h (css ! ?i)"
    using assms(1) i by (simp add: table_abs_def)
  show ?thesis
  proof (cases "css ! ?i")
    case Nil
    then show ?thesis
      using assms(1) i nz by (simp add: ch_get_def heap_defs table_abs_def)
  next
    case (Cons n ns)
    then have "head_ptr (css ! ?i) \<noteq> NULL" by simp
    then show ?thesis
      using assms(1) i nz get_loop_chain [OF ch, of key]
      by (simp add: ch_get_def heap_defs table_abs_def)
  qed
qed

lemma construct_ok:
  assumes "a \<noteq> ka"
  shows "construct h (Addr a, Addr ka) key val =
         Inr (Addr a, h(ka \<mapsto> Chars key,
                a \<mapsto> Property \<lparr>p_key = Addr ka, p_value = val, p_next = NULL\<rparr>))"
  using assms by (auto simp: construct_def heap_defs Let_def fun_eq_iff)

lemma construct_no_key:
  assumes "h a = None"
  shows "construct h (Addr a, NULL) key val = Inr (NULL, h)"
  using assms by (auto simp: construct_def clear_def heap_defs Let_def fun_eq_iff)

lemma construct_no_entry: "construct h (NULL, r) key val = Inl NullDeref"
  by (cases r) (simp_all add: construct_def heap_defs Let_def)

lemma chain_split:
  "chain h (pre @ n # post) \<Longrightarrow>
   h (n_addr n) = Some (node_cell n (head_ptr post)) \<and> h (n_kaddr n) = Some (Chars (n_key n))"
  by (induction pre) simp_all

lemma put_loop_found:
  assumes "chain h (pre @ n # post)" and "key \<notin> n_key ` set pre" and "n_key n = key"
  shows "put_loop h mr prev (head_ptr (pre @ n # post)) key val =
         Some (Inr (val, h(n_addr n \<mapsto> node_cell (n\<lparr>n_value := val\<rparr>) (head_ptr post))))"
  using assms
proof (induction pre arbitrary: prev)
  case Nil
  then show ?case
    by (subst put_loop.simps) (simp add: heap_defs node_cell_def)
next
  case (Cons m pre)
  have "put_loop h mr prev (head_ptr ((m # pre) @ n # post)) key val =
        put_loop h mr (Addr (n_addr m)) (head_ptr (pre @ n # post)) key val"
    using Cons.prems by (subst put_loop.simps) (auto simp add: heap_defs node_cell_def)
  then show ?case
    using Cons.IH [of "Addr (n_addr m)"] Cons.prems by simp
qed

lemma put_loop_tail:
  assumes "chain h (m # ns)" and "key \<notin> n_key ` set ns"
    and "a \<noteq> ka" and "h a = None" and "h ka = None"
  shows "put_loop h (Addr a, Addr ka) (Addr (n_addr m)) (head_ptr ns) key val =
         Some (Inr (val, h(ka \<mapsto> Chars key,
                 a \<mapsto> Property \<lparr>p_key = Addr ka, p_value = val, p_next = NULL\<rparr>,
                 n_addr (last (m # ns)) \<mapsto> node_cell (last (m # ns)) (Addr a))))"
  using assms
proof (induction ns arbitrary: m)
  case Nil
  then have "n_addr m \<noteq> a" "n_addr m \<noteq> ka"
    by auto
  then show ?case
    using Nil by (subst put_loop.simps) (simp add: construct_ok heap_defs node_cell_def)
next
  case (Cons n ns)
  have "put_loop h (Addr a, Addr ka) (Addr (n_addr m)) (head_ptr (n # ns)) key val =
        put_loop h (Addr a, Addr ka) (Addr (n_addr n)) (head_ptr ns) key val"
    using Cons.prems by (subst put_loop.simps) (auto simp add: heap_defs node_cell_def)
  then show ?case
    using Cons.IH [of n] Cons.prems by simp
qed

lemma put_loop_absent:
  assumes "chain h ns" and "ns \<noteq> []" and "key \<notin> n_key ` set ns"
    and "a \<noteq> ka" and "h a = None" and "h ka = None"
  shows "put_loop h (Addr a, Addr ka) prev (head_ptr ns) key val =
         Some (Inr (val, h(ka \<mapsto> Chars key,
                 a \<mapsto> Property \<lparr>p_key = Addr ka, p_value = val, p_next = NULL\<rparr>,
                 n_addr (last ns) \<mapsto> node_cell (last ns) (Addr a))))"
proof -
  obtain m ms where ns: "ns = m # ms"
    using assms(2) by (cases ns) auto
  have "put_loop h (Addr a, Addr ka) prev (head_ptr ns) key val =
        put_loop h (Addr a, Addr ka) (Addr (n_addr m)) (head_ptr ms) key val"
    using assms(1,3) unfolding ns by (subst put_loop.simps) (auto simp add: heap_defs node_cell_def)
  then show ?thesis
    using put_loop_tail [of h m ms key a ka val] assms unfolding ns by simp
qed

lemma delete_loop_found:
  assumes "chain h (pre @ n # post)" and "key \<notin> n_key ` set pre" and "n_key n = key"
  shows "delete_loop h prev (head_ptr (pre @ n # post)) key =
         Some (Inr (if pre = [] then prev else Addr (n_addr (last pre)), Addr (n_addr n)))"
  using assms
proof (induction pre arbitrary: prev)
  case Nil
  then show ?case
    by (subst delete_loop.simps) (simp add: heap_defs node_cell_def)
next
  case (Cons m pre)
  have "delete_loop h prev (head_ptr ((m # pre) @ n # post)) key =
        delete_loop h (Addr (n_addr m)) (head_ptr (pre @ n # post)) key"
    using Cons.prems by (subst delete_loop.simps) (auto simp add: heap_defs node_cell_def)
  then show ?case
    using Cons.IH [of "Addr (n_addr m)"] Cons.prems by simp
qed

lemma delete_loop_absent:
  assumes "chain h ns" and "key \<notin> n_key ` set ns"
  shows "\<exists>q. delete_loop h prev (head_ptr ns) key = Some (Inr (q, NULL))"
  using assms
proof (induction ns arbitrary: prev)
  case Nil
  show ?case by (subst delete_loop.simps) simp
next
  case (Cons n ns)
  have "delete_loop h prev (head_ptr (n # ns)) key =
        delete_loop h (Addr (n_addr n)) (head_ptr ns) key"
    using Cons.prems by (subst delete_loop.simps) (auto simp add: heap_defs node_cell_def)
  then show ?case
    using Cons.IH [of "Addr (n_addr n)"] Cons.prems by simp
qed

lemma clear_node:
  assumes "h a = Some (node_cell n nxt)" and "h (n_kaddr n) \<noteq> None" and "a \<noteq> n_kaddr n"
  shows "clear h (Addr a) = Inr (h(n_kaddr n := None, a := None))"
  using assms by (auto simp: clear_def heap_defs node_cell_def fun_eq_iff)

lemma cells_append: "cells (xs @ ys) = cells xs @ cells ys"
  by (simp add: cells_def)

lemma cells_Cons: "cells (n # ns) = n_addr n # n_kaddr n # cells ns"
  by (simp add: cells_def)

lemma cells_Nil: "cells [] = []"
  by (simp add: cells_def)

lemma chain_update_value:
  assumes "chain h (pre @ n # post)" and "distinct (cells (pre @ n # post))"
  shows "chain (h(n_addr n \<mapsto> node_cell (n\<lparr>n_value := val\<rparr>) (head_ptr post)))
           (pre @ n\<lparr>n_value := val\<rparr> # post)"
  using assms
proof (induction pre)
  case Nil
  let ?h = "h(n_addr n \<mapsto> node_cell (n\<lparr>n_value := val\<rparr>) (head_ptr post))"
  have post: "chain h post"
    using Nil.prems(1) by simp
  have 1: "chain ?h post"
    using Nil.prems(2) by (intro chain_frame [OF post]) (auto simp: cells_Cons)
  have 2: "?h (n_kaddr n) = Some (Chars (n_key n))"
    using Nil.prems by (simp add: cells_Cons)
  show ?case
    using 1 2 by (simp del: fun_upd_apply) simp
next
  case (Cons m pre)
  let ?h = "h(n_addr n \<mapsto> node_cell (n\<lparr>n_value := val\<rparr>) (head_ptr post))"
  have hp: "head_ptr (pre @ n\<lparr>n_value := val\<rparr> # post) = head_ptr (pre @ n # post)"
    by (cases pre) simp_all
  have p1: "chain h (pre @ n # post)"
    using Cons.prems(1) by simp
  have p2: "distinct (cells (pre @ n # post))"
    using Cons.prems(2) by (simp add: cells_Cons)
  have 1: "chain ?h (pre @ n\<lparr>n_value := val\<rparr> # post)"
    by (rule Cons.IH [OF p1 p2])
  have 2: "?h (n_addr m) = h (n_addr m)" "?h (n_kaddr m) = h (n_kaddr m)"
    using Cons.prems(2) by (auto simp: cells_Cons cells_append)
  show ?case
    using 1 2 hp Cons.prems(1) by (simp del: fun_upd_apply)
qed

lemma chain_snoc:
  assumes "chain h ns" and "distinct (cells ns)"
    and "h' (n_kaddr new) = Some (Chars (n_key new))"
    and "h' (n_addr new) = Some (node_cell new NULL)"
    and "ns \<noteq> [] \<Longrightarrow> h' (n_addr (last ns)) = Some (node_cell (last ns) (Addr (n_addr new)))"
    and "\<And>x. x \<in> set (cells ns) \<Longrightarrow> x \<noteq> n_addr (last ns) \<Longrightarrow> h' x = h x"
  shows "chain h' (ns @ [new])"
  using assms(1,2,5,6)
proof (induction ns)
  case Nil
  show ?case using assms(3,4) by simp
next
  case (Cons n ns)
  show ?case
  proof (cases "ns = []")
    case True
    have "h' (n_kaddr n) = h (n_kaddr n)"
      using Cons.prems(2) True by (intro Cons.prems(4)) (auto simp: cells_Cons)
    then show ?thesis
      using True Cons.prems(1,3) assms(3,4) by simp
  next
    case False
    have last_in: "n_addr (last ns) \<in> set (cells ns)"
      using False by (induction ns) (auto simp: cells_Cons)
    have a: "h' (n_addr n) = h (n_addr n)"
      using Cons.prems(2) False last_in by (intro Cons.prems(4)) (auto simp: cells_Cons)
    have k: "h' (n_kaddr n) = h (n_kaddr n)"
      using Cons.prems(2) False last_in by (intro Cons.prems(4)) (auto simp: cells_Cons)
    have hp: "head_ptr (ns @ [new]) = head_ptr ns"
      using False by (cases ns) simp_all
    have "chain h' (ns @ [new])"
      using Cons.prems False by (intro Cons.IH) (auto simp: cells_Cons)
    then show ?thesis
      using a k hp Cons.prems(1) by simp
  qed
qed

lemma chain_remove:
  assumes "chain h (pre @ n # post)" and "distinct (cells (pre @ n # post))"
    and "pre \<noteq> [] \<Longrightarrow> h' (n_addr (last pre)) = Some (node_cell (last pre) (head_ptr post))"
    and "\<And>x. x \<in> set (cells (pre @ post)) \<Longrightarrow> (pre = [] \<or> x \<noteq> n_addr (last pre)) \<Longrightarrow> h' x = h x"
  shows "chain h' (pre @ post)"
  using assms
proof (induction pre)
  case Nil
  then have "chain h post" by simp
  then show ?case
    using Nil.prems(4) by (simp add: chain_frame)
next
  case (Cons m pre)
  show ?case
  proof (cases "pre = []")
    case True
    have "chain h post"
      using Cons.prems(1) True by simp
    then have post: "chain h' post"
    proof (rule chain_frame)
      fix x assume "x \<in> set (cells post)"
      then show "h' x = h x"
        using Cons.prems(2) True by (intro Cons.prems(4)) (auto simp: cells_Cons cells_append)
    qed
    have "h' (n_kaddr m) = h (n_kaddr m)"
      using Cons.prems(2) True by (intro Cons.prems(4)) (auto simp: cells_Cons)
    then show ?thesis
      using True post Cons.prems(1,3) by simp
  next
    case False
    have last_in: "n_addr (last pre) \<in> set (cells pre)"
      using False by (induction pre) (auto simp: cells_Cons)
    have a: "h' (n_addr m) = h (n_addr m)"
      using Cons.prems(2) False last_in by (intro Cons.prems(4)) (auto simp: cells_Cons cells_append)
    have k: "h' (n_kaddr m) = h (n_kaddr m)"
      using Cons.prems(2) False last_in by (intro Cons.prems(4)) (auto simp: cells_Cons cells_append)
    have hp: "head_ptr (pre @ post) = head_ptr (pre @ n # post)"
      using False by (cases pre) simp_all
    have "chain h' (pre @ post)"
      using Cons.prems False by (intro Cons.IH) (auto simp: cells_Cons cells_append)
    then show ?thesis
      using a k hp Cons.prems(1) by simp
  qed
qed

subsection \<open>Tables in the heap\<close>

lemma table_absD:
  assumes "table_abs h t arr css"
  shows "length css < 2 ^ 64"
    and "h t = Some (Table \<lparr>size_tab = of_nat (length css), p_entries = Addr arr\<rparr>)"
    and "h arr = Some (Slots (map head_ptr css))"
    and "t \<noteq> arr"
    and "\<And>i. i < length css \<Longrightarrow> chain h (css ! i)"
    and "\<And>i. i < length css \<Longrightarrow> distinct (cells (css ! i))"
    and "\<And>i. i < length css \<Longrightarrow> t \<notin> set (cells (css ! i))"
    and "\<And>i. i < length css \<Longrightarrow> arr \<notin> set (cells (css ! i))"
    and "\<And>i j. i < length css \<Longrightarrow> j < length css \<Longrightarrow> i \<noteq> j \<Longrightarrow>
           set (cells (css ! i)) \<inter> set (cells (css ! j)) = {}"
  using assms unfolding table_abs_def by blast+

lemma table_abs_update:
  assumes tab: "table_abs h t arr css" and i: "i < length css"
    and ht: "h' t = h t"
    and harr: "h' arr = Some (Slots (map head_ptr (css[i := ns'])))"
    and ch: "chain h' ns'" and dist: "distinct (cells ns')"
    and t: "t \<notin> set (cells ns')" and arr: "arr \<notin> set (cells ns')"
    and disj: "\<And>j. j < length css \<Longrightarrow> j \<noteq> i \<Longrightarrow> set (cells ns') \<inter> set (cells (css ! j)) = {}"
    and frame: "\<And>j x. j < length css \<Longrightarrow> j \<noteq> i \<Longrightarrow> x \<in> set (cells (css ! j)) \<Longrightarrow> h' x = h x"
  shows "table_abs h' t arr (css[i := ns'])"
proof -
  note D = table_absD [OF tab]
  have 1: "length (css[i := ns']) < 2 ^ 64"
    using D(1) by simp
  have 2: "h' t = Some (Table \<lparr>size_tab = of_nat (length (css[i := ns'])), p_entries = Addr arr\<rparr>)"
    using D(2) ht by simp
  have 3: "chain h' (css[i := ns'] ! j)" if j: "j < length css" for j
  proof (cases "j = i")
    case True
    then show ?thesis using i ch by simp
  next
    case False
    have "chain h' (css ! j)"
      using frame [OF j False] by (rule chain_frame [OF D(5) [OF j]])
    then show ?thesis using False by simp
  qed
  have 4: "distinct (cells (css[i := ns'] ! j))" if j: "j < length css" for j
    using D(6) [OF j] i dist by (cases "j = i") simp_all
  have 5: "t \<notin> set (cells (css[i := ns'] ! j))" if j: "j < length css" for j
    using D(7) [OF j] i t by (cases "j = i") simp_all
  have 6: "arr \<notin> set (cells (css[i := ns'] ! j))" if j: "j < length css" for j
    using D(8) [OF j] i arr by (cases "j = i") simp_all
  have 7: "set (cells (css[i := ns'] ! j)) \<inter> set (cells (css[i := ns'] ! k)) = {}"
    if j: "j < length css" and k: "k < length css" and jk: "j \<noteq> k" for j k
  proof (cases "j = i")
    case True
    then show ?thesis
      using disj [OF k] jk i by simp
  next
    case ji: False
    show ?thesis
    proof (cases "k = i")
      case True
      then show ?thesis
        using disj [OF j ji] i ji by (simp add: Int_commute)
    next
      case False
      then show ?thesis
        using ji D(9) [OF j k jk] by simp
    qed
  qed
  show ?thesis
    unfolding table_abs_def using 1 2 harr D(4) 3 4 5 6 7 by simp
qed

lemma keys_ok_update:
  assumes "keys_ok css" and "i < length css" and "distinct (map n_key ns')"
    and "\<And>n. n \<in> set ns' \<Longrightarrow> slot_of (of_nat (length css)) (n_key n) = i"
  shows "keys_ok (css[i := ns'])"
  unfolding keys_ok_def
proof (intro allI impI)
  fix j assume j: "j < length (css[i := ns'])"
  show "distinct (map n_key (css[i := ns'] ! j)) \<and>
        (\<forall>n\<in>set (css[i := ns'] ! j). slot_of (of_nat (length (css[i := ns']))) (n_key n) = j)"
  proof (cases "j = i")
    case True
    then show ?thesis using assms(2,3,4) by simp
  next
    case False
    then show ?thesis using assms(1) j by (simp add: keys_ok_def)
  qed
qed

lemma table_abs_slot:
  assumes "table_abs h t arr css" and "css \<noteq> []"
  shows "slot_of (of_nat (length css)) key < length css"
  using assms by (simp add: table_abs_def slot_of_less)

lemma table_abs_size_nonzero:
  assumes "table_abs h t arr css" and "css \<noteq> []"
  shows "(of_nat (length css) :: 64 word) \<noteq> 0"
  using assms by (simp add: table_abs_def of_nat_size_nonzero)

lemma head_ptr_nth: "i < length css \<Longrightarrow> map head_ptr css ! i = head_ptr (css ! i)"
  by simp

lemma ch_put_present:
  assumes tab: "table_abs h t arr css" and ne: "css \<noteq> []"
    and split: "css ! slot_of (of_nat (length css)) key = pre @ n # post"
    and pre: "key \<notin> n_key ` set pre" and n: "n_key n = key"
  shows "ch_put h mr (Addr t) key val =
         Some (Inr (val, h(n_addr n \<mapsto> node_cell (n\<lparr>n_value := val\<rparr>) (head_ptr post))))"
    and "table_abs (h(n_addr n \<mapsto> node_cell (n\<lparr>n_value := val\<rparr>) (head_ptr post))) t arr
           (css[slot_of (of_nat (length css)) key := pre @ n\<lparr>n_value := val\<rparr> # post])"
proof -
  let ?i = "slot_of (of_nat (length css)) key"
  let ?h = "h(n_addr n \<mapsto> node_cell (n\<lparr>n_value := val\<rparr>) (head_ptr post))"
  note D = table_absD [OF tab]
  have i: "?i < length css"
    using tab ne by (rule table_abs_slot)
  have nz: "(of_nat (length css) :: 64 word) \<noteq> 0"
    using tab ne by (rule table_abs_size_nonzero)
  have ch: "chain h (pre @ n # post)"
    using D(5) [OF i] split by simp
  have hd: "head_ptr (css ! ?i) \<noteq> NULL"
    unfolding split by (cases pre) simp_all
  have "ch_put h mr (Addr t) key val = put_loop h mr NULL (head_ptr (css ! ?i)) key val"
    using D(2,3) i nz hd by (simp add: ch_put_def heap_defs)
  then show "ch_put h mr (Addr t) key val = Some (Inr (val, ?h))"
    using put_loop_found [OF ch pre n] split by simp
  have dist: "distinct (cells (pre @ n # post))"
    using D(6) [OF i] split by simp
  have n_in: "n_addr n \<in> set (cells (css ! ?i))"
    unfolding split by (simp add: cells_append cells_Cons)
  have same_cells: "cells (pre @ n\<lparr>n_value := val\<rparr> # post) = cells (css ! ?i)"
    unfolding split by (simp add: cells_append cells_Cons)
  have same_heads: "map head_ptr (css[?i := pre @ n\<lparr>n_value := val\<rparr> # post]) = map head_ptr css"
  proof -
    have "head_ptr (pre @ n\<lparr>n_value := val\<rparr> # post) = head_ptr (css ! ?i)"
      unfolding split by (cases pre) simp_all
    then show ?thesis
      using i by (simp add: map_update list_update_same_conv)
  qed
  show "table_abs ?h t arr (css[?i := pre @ n\<lparr>n_value := val\<rparr> # post])"
  proof (rule table_abs_update [OF tab i])
    show "?h t = h t"
      using D(7) [OF i] n_in by auto
    show "?h arr = Some (Slots (map head_ptr (css[?i := pre @ n\<lparr>n_value := val\<rparr> # post])))"
      using D(8) [OF i] n_in D(3) same_heads by auto
    show "chain ?h (pre @ n\<lparr>n_value := val\<rparr> # post)"
      by (rule chain_update_value [OF ch dist])
    show "distinct (cells (pre @ n\<lparr>n_value := val\<rparr> # post))"
      using same_cells D(6) [OF i] by simp
    show "t \<notin> set (cells (pre @ n\<lparr>n_value := val\<rparr> # post))"
      using same_cells D(7) [OF i] by simp
    show "arr \<notin> set (cells (pre @ n\<lparr>n_value := val\<rparr> # post))"
      using same_cells D(8) [OF i] by simp
    show "set (cells (pre @ n\<lparr>n_value := val\<rparr> # post)) \<inter> set (cells (css ! j)) = {}"
      if "j < length css" "j \<noteq> ?i" for j
      using same_cells D(9) [OF i that(1)] that(2) by simp
    show "?h x = h x" if "j < length css" "j \<noteq> ?i" "x \<in> set (cells (css ! j))" for j x
      using D(9) [OF i that(1)] that(2,3) n_in by auto
  qed
qed

lemma last_in_cells: "ns \<noteq> [] \<Longrightarrow> n_addr (last ns) \<in> set (cells ns)"
  by (induction ns) (auto simp: cells_Cons)

lemma ch_put_absent:
  assumes tab: "table_abs h t arr css" and ne: "css \<noteq> []"
    and absent: "key \<notin> n_key ` set (css ! slot_of (of_nat (length css)) key)"
    and fresh: "a \<noteq> ka" "h a = None" "h ka = None"
  shows "ch_put h (Addr a, Addr ka) (Addr t) key val =
         Some (Inr (val, put_heap h arr css (slot_of (of_nat (length css)) key) (new_node a ka key val)))"
    and "table_abs (put_heap h arr css (slot_of (of_nat (length css)) key) (new_node a ka key val)) t arr
           (css[slot_of (of_nat (length css)) key :=
                  css ! slot_of (of_nat (length css)) key @ [new_node a ka key val]])"
proof -
  let ?i = "slot_of (of_nat (length css)) key"
  let ?new = "new_node a ka key val"
  let ?ns = "css ! ?i"
  let ?h = "put_heap h arr css ?i ?new"
  note D = table_absD [OF tab]
  have i: "?i < length css"
    using tab ne by (rule table_abs_slot)
  have nz: "(of_nat (length css) :: 64 word) \<noteq> 0"
    using tab ne by (rule table_abs_size_nonzero)
  have ch: "chain h ?ns"
    by (rule D(5) [OF i])
  have nc: "node_cell ?new NULL = Property \<lparr>p_key = Addr ka, p_value = val, p_next = NULL\<rparr>"
    by (simp add: node_cell_def new_node_def)
  have fresh_cells: "a \<notin> set (cells (css ! j))" "ka \<notin> set (cells (css ! j))" if "j < length css" for j
    using chain_allocated [OF D(5) [OF that], of a] chain_allocated [OF D(5) [OF that], of ka] fresh
    by auto
  have at: "a \<noteq> t" "ka \<noteq> t" "a \<noteq> arr" "ka \<noteq> arr"
    using D(2,3) fresh by auto
  show "ch_put h (Addr a, Addr ka) (Addr t) key val = Some (Inr (val, ?h))"
  proof (cases "?ns = []")
    case True
    then show ?thesis
      using D(2,3) i nz at fresh(1)
      by (simp add: ch_put_def heap_defs construct_ok put_heap_def Let_def new_node_def node_cell_def)
  next
    case False
    then have hd: "head_ptr ?ns \<noteq> NULL"
      by (cases ?ns) simp_all
    have "ch_put h (Addr a, Addr ka) (Addr t) key val =
          put_loop h (Addr a, Addr ka) NULL (head_ptr ?ns) key val"
      using D(2,3) i nz hd by (simp add: ch_put_def heap_defs)
    then show ?thesis
      using put_loop_absent [OF ch False absent fresh] False
      by (simp add: put_heap_def Let_def new_node_def node_cell_def)
  qed
  have hk: "?h ka = Some (Chars key)"
    using fresh at fresh_cells(2) [OF i] last_in_cells [of ?ns]
    by (auto simp: put_heap_def Let_def new_node_def)
  have ha: "?h a = Some (node_cell ?new NULL)"
    using fresh at fresh_cells(1) [OF i] last_in_cells [of ?ns]
    by (auto simp: put_heap_def Let_def new_node_def)
  have hl: "?h (n_addr (last ?ns)) = Some (node_cell (last ?ns) (Addr a))" if "?ns \<noteq> []"
    using that by (simp add: put_heap_def Let_def new_node_def)
  have hx: "?h x = h x" if "x \<noteq> a" "x \<noteq> ka" "x \<noteq> arr" "?ns = [] \<or> x \<noteq> n_addr (last ?ns)" for x
    using that by (auto simp: put_heap_def Let_def new_node_def)
  show "table_abs ?h t arr (css[?i := ?ns @ [?new]])"
  proof (rule table_abs_update [OF tab i])
    show "?h t = h t"
      using at D(4) D(7) [OF i] last_in_cells [of ?ns] by (intro hx) auto
    show "?h arr = Some (Slots (map head_ptr (css[?i := ?ns @ [?new]])))"
    proof (cases "?ns = []")
      case True
      then show ?thesis
        by (simp add: put_heap_def Let_def map_update new_node_def)
    next
      case False
      then have "head_ptr (?ns @ [?new]) = head_ptr ?ns"
        by (cases ?ns) simp_all
      then have "map head_ptr (css[?i := ?ns @ [?new]]) = map head_ptr css"
        using i by (simp add: map_update list_update_same_conv)
      moreover have "?h arr = h arr"
        using False at D(8) [OF i] last_in_cells [OF False]
        by (auto simp: put_heap_def Let_def new_node_def)
      ultimately show ?thesis
        using D(3) by simp
    qed
    show "chain ?h (?ns @ [?new])"
    proof (rule chain_snoc [OF ch D(6) [OF i]])
      show "?h (n_kaddr ?new) = Some (Chars (n_key ?new))"
        using hk by (simp add: new_node_def)
      show "?h (n_addr ?new) = Some (node_cell ?new NULL)"
        using ha by (simp add: new_node_def)
      show "?h (n_addr (last ?ns)) = Some (node_cell (last ?ns) (Addr (n_addr ?new)))" if "?ns \<noteq> []"
        using hl [OF that] by (simp add: new_node_def)
      show "?h x = h x" if "x \<in> set (cells ?ns)" "x \<noteq> n_addr (last ?ns)" for x
        using that fresh_cells [OF i] D(8) [OF i] by (intro hx) auto
    qed
    show "distinct (cells (?ns @ [?new]))"
      using D(6) [OF i] fresh_cells [OF i] fresh(1)
      by (simp add: cells_append cells_Cons cells_Nil new_node_def)
    show "t \<notin> set (cells (?ns @ [?new]))"
      using D(7) [OF i] at by (simp add: cells_append cells_Cons cells_Nil new_node_def)
    show "arr \<notin> set (cells (?ns @ [?new]))"
      using D(8) [OF i] at by (simp add: cells_append cells_Cons cells_Nil new_node_def)
    show "set (cells (?ns @ [?new])) \<inter> set (cells (css ! j)) = {}"
      if "j < length css" "j \<noteq> ?i" for j
      using D(9) [OF i that(1)] that(2) fresh_cells [OF that(1)]
      by (simp add: cells_append cells_Cons cells_Nil new_node_def)
    show "?h x = h x" if "j < length css" "j \<noteq> ?i" "x \<in> set (cells (css ! j))" for j x
    proof (rule hx)
      show "x \<noteq> a" "x \<noteq> ka"
        using fresh_cells [OF that(1)] that(3) by auto
      show "x \<noteq> arr"
        using D(8) [OF that(1)] that(3) by auto
      show "?ns = [] \<or> x \<noteq> n_addr (last ?ns)"
        using D(9) [OF i that(1)] that(2,3) last_in_cells [of ?ns] by auto
    qed
  qed
qed

lemma null_or_self: "(if p = NULL then NULL else p) = p"
  by simp

lemma ch_delete_absent:
  assumes tab: "table_abs h t arr css" and ne: "css \<noteq> []"
    and absent: "key \<notin> n_key ` set (css ! slot_of (of_nat (length css)) key)"
  shows "ch_delete h (Addr t) key = Some (Inr (NULL, h))"
proof -
  let ?i = "slot_of (of_nat (length css)) key"
  note D = table_absD [OF tab]
  have i: "?i < length css"
    using tab ne by (rule table_abs_slot)
  have nz: "(of_nat (length css) :: 64 word) \<noteq> 0"
    using tab ne by (rule table_abs_size_nonzero)
  obtain q where "delete_loop h NULL (head_ptr (css ! ?i)) key = Some (Inr (q, NULL))"
    using delete_loop_absent [OF D(5) [OF i] absent] by blast
  then show ?thesis
    using D(2,3) i nz by (simp add: ch_delete_def heap_defs)
qed

lemma ch_delete_present:
  assumes tab: "table_abs h t arr css" and ne: "css \<noteq> []"
    and split: "css ! slot_of (of_nat (length css)) key = pre @ n # post"
    and pre: "key \<notin> n_key ` set pre" and n: "n_key n = key"
  shows "ch_delete h (Addr t) key =
         Some (Inr (n_value n, delete_heap h arr css (slot_of (of_nat (length css)) key) pre n post))"
    and "table_abs (delete_heap h arr css (slot_of (of_nat (length css)) key) pre n post) t arr
           (css[slot_of (of_nat (length css)) key := pre @ post])"
proof -
  let ?i = "slot_of (of_nat (length css)) key"
  let ?h = "delete_heap h arr css ?i pre n post"
  note D = table_absD [OF tab]
  have i: "?i < length css"
    using tab ne by (rule table_abs_slot)
  have nz: "(of_nat (length css) :: 64 word) \<noteq> 0"
    using tab ne by (rule table_abs_size_nonzero)
  have ch: "chain h (pre @ n # post)"
    using D(5) [OF i] split by simp
  have dist: "distinct (cells (pre @ n # post))"
    using D(6) [OF i] split by simp
  have hn: "h (n_addr n) = Some (node_cell n (head_ptr post))" "h (n_kaddr n) = Some (Chars (n_key n))"
    using chain_split [OF ch] by simp_all
  have nk: "n_addr n \<noteq> n_kaddr n"
    using dist by (simp add: cells_append cells_Cons)
  have n_arr: "n_addr n \<noteq> arr" "n_kaddr n \<noteq> arr" "n_addr n \<noteq> t" "n_kaddr n \<noteq> t"
    using D(7) [OF i] D(8) [OF i] split by (auto simp: cells_append cells_Cons)
  have loop: "delete_loop h NULL (head_ptr (css ! ?i)) key =
        Some (Inr (if pre = [] then NULL else Addr (n_addr (last pre)), Addr (n_addr n)))"
    using delete_loop_found [OF ch pre n, of NULL] split by simp
  show "ch_delete h (Addr t) key = Some (Inr (n_value n, ?h))"
  proof (cases "pre = []")
    case True
    let ?h1 = "h(arr \<mapsto> Slots ((map head_ptr css)[?i := head_ptr post]))"
    have cl: "clear ?h1 (Addr (n_addr n)) = Inr (?h1(n_kaddr n := None, n_addr n := None))"
      using hn n_arr nk by (intro clear_node) auto
    show ?thesis
      using True D(2,3) i nz loop hn(1) cl n_arr
      by (simp add: ch_delete_def heap_defs delete_heap_def Let_def node_cell_def null_or_self
            del: fun_upd_apply cong: if_cong)
  next
    case False
    let ?l = "last pre"
    let ?h1 = "h(n_addr ?l \<mapsto> node_cell ?l (head_ptr post))"
    have l_in: "n_addr ?l \<in> set (cells pre)"
      using False by (rule last_in_cells)
    have ln: "n_addr ?l \<noteq> n_addr n" "n_addr ?l \<noteq> n_kaddr n"
      using dist l_in by (auto simp: cells_append cells_Cons)
    have hl: "h (n_addr ?l) = Some (node_cell ?l (Addr (n_addr n)))"
    proof -
      have "pre = butlast pre @ [?l]"
        using False by simp
      then have "chain h (butlast pre @ ?l # n # post)"
        using ch by (metis append.assoc append_Cons append_Nil)
      then show ?thesis
        using chain_split [of h "butlast pre" ?l "n # post"] by simp
    qed
    have cl: "clear ?h1 (Addr (n_addr n)) = Inr (?h1(n_kaddr n := None, n_addr n := None))"
      using hn ln nk by (intro clear_node) auto
    have st: "store_next h (Addr (n_addr ?l)) (head_ptr post) = Inr ?h1"
      using hl by (simp add: heap_defs node_cell_def)
    show ?thesis
      using False D(2,3) i nz loop hn(1) cl st
      by (simp add: ch_delete_def load_table_def load_slot_def load_property_def load_def
            delete_heap_def Let_def node_cell_def null_or_self
            del: fun_upd_apply cong: if_cong)
  qed
  have hx: "?h x = h x"
    if "x \<noteq> n_addr n" "x \<noteq> n_kaddr n" "pre = [] \<longrightarrow> x \<noteq> arr" "pre \<noteq> [] \<longrightarrow> x \<noteq> n_addr (last pre)" for x
    using that by (auto simp: delete_heap_def Let_def)
  have sub: "set (cells (pre @ post)) \<subseteq> set (cells (css ! ?i))"
    unfolding split by (auto simp: cells_append cells_Cons)
  show "table_abs ?h t arr (css[?i := pre @ post])"
  proof (rule table_abs_update [OF tab i])
    show "?h t = h t"
      using n_arr D(4) D(7) [OF i] last_in_cells [of pre] split
      by (intro hx) (auto simp: cells_append)
    show "?h arr = Some (Slots (map head_ptr (css[?i := pre @ post])))"
    proof (cases "pre = []")
      case True
      then show ?thesis
        using n_arr by (simp add: delete_heap_def Let_def map_update)
    next
      case False
      then have "head_ptr (pre @ post) = head_ptr (css ! ?i)"
        unfolding split by (cases pre) simp_all
      then have "map head_ptr (css[?i := pre @ post]) = map head_ptr css"
        using i by (simp add: map_update list_update_same_conv)
      moreover have "?h arr = h arr"
        using False n_arr D(8) [OF i] last_in_cells [OF False] split
        by (intro hx) (auto simp: cells_append)
      ultimately show ?thesis
        using D(3) by simp
    qed
    show "chain ?h (pre @ post)"
    proof (rule chain_remove [OF ch dist])
      show "?h (n_addr (last pre)) = Some (node_cell (last pre) (head_ptr post))" if "pre \<noteq> []"
        using that dist last_in_cells [OF that]
        by (auto simp: delete_heap_def Let_def cells_append cells_Cons)
      show "?h x = h x" if "x \<in> set (cells (pre @ post))" "pre = [] \<or> x \<noteq> n_addr (last pre)" for x
        using that dist D(8) [OF i] split
        by (intro hx) (auto simp: cells_append cells_Cons)
    qed
    show "distinct (cells (pre @ post))"
      using dist by (simp add: cells_append cells_Cons)
    show "t \<notin> set (cells (pre @ post))"
      using D(7) [OF i] sub by auto
    show "arr \<notin> set (cells (pre @ post))"
      using D(8) [OF i] sub by auto
    show "set (cells (pre @ post)) \<inter> set (cells (css ! j)) = {}"
      if "j < length css" "j \<noteq> ?i" for j
      using D(9) [OF i that(1)] that(2) sub by auto
    show "?h x = h x" if "j < length css" "j \<noteq> ?i" "x \<in> set (cells (css ! j))" for j x
    proof (rule hx)
      have xi: "x \<notin> set (cells (css ! ?i))"
        using D(9) [OF i that(1)] that(2,3) by auto
      then show "x \<noteq> n_addr n" "x \<noteq> n_kaddr n"
        unfolding split by (auto simp: cells_append cells_Cons)
      show "pre = [] \<longrightarrow> x \<noteq> arr"
        using D(8) [OF that(1)] that(3) by auto
      show "pre \<noteq> [] \<longrightarrow> x \<noteq> n_addr (last pre)"
        using xi last_in_cells [of pre] unfolding split by (auto simp: cells_append)
    qed
  qed
qed

lemma create_loop_ok:
  assumes "h t = Some (Table \<lparr>size_tab = C, p_entries = Addr arr\<rparr>)"
    and "h arr = Some (Slots ss)" and "length ss = unat C" and "t \<noteq> arr"
    and "unat C \<le> 2 ^ 31 - 1" and "c \<le> unat C"
  shows "create_loop h (Addr t) c C =
         Inr (h(arr \<mapsto> Slots (take c ss @ replicate (unat C - c) NULL)))"
  using assms
proof (induction "unat C - c" arbitrary: c h ss)
  case 0
  then have "c = unat C" by simp
  then show ?case
    using 0 by (subst create_loop.simps) (simp add: fun_upd_idem)
next
  case (Suc k)
  then have lt: "c < unat C" by simp
  let ?h = "h(arr \<mapsto> Slots (ss[c := NULL]))"
  have step: "create_loop h (Addr t) c C = create_loop ?h (Addr t) (c + 1) C"
    using Suc.prems lt by (subst create_loop.simps) (simp add: heap_defs)
  have "create_loop ?h (Addr t) (c + 1) C =
        Inr (?h(arr \<mapsto> Slots (take (c + 1) (ss[c := NULL]) @ replicate (unat C - (c + 1)) NULL)))"
    using Suc.prems Suc.hyps(2) lt by (intro Suc.hyps(1)) simp_all
  moreover have "take (c + 1) (ss[c := NULL]) @ replicate (unat C - (c + 1)) NULL =
        take c ss @ replicate (unat C - c) NULL"
  proof -
    have "take (c + 1) (ss[c := NULL]) = take c ss @ [NULL]"
      using lt Suc.prems(3) by (simp add: take_Suc_conv_app_nth)
    moreover have "replicate (unat C - c) NULL = NULL # replicate (unat C - (c + 1)) NULL"
      using lt by (metis Suc_diff_Suc Suc_eq_plus1 replicate_Suc)
    ultimately show ?thesis by simp
  qed
  ultimately show ?case
    using step by simp
qed

lemma create_loop_overflow:
  assumes "2 ^ 31 - 1 < unat C" and "c \<le> 2 ^ 31 - 1"
  shows "\<exists>f. create_loop h p c C = Inl f"
  using assms
proof (induction "2 ^ 31 - 1 - c" arbitrary: c h)
  case 0
  then have "c = 2 ^ 31 - 1" by simp
  then show ?case
    using 0 by (subst create_loop.simps) (simp split: sum.splits)
next
  case (Suc k)
  then have c: "c < 2 ^ 31 - 1" "c < unat C" by simp_all
  show ?case
  proof (cases "load_table h p")
    case (Inl f)
    then show ?thesis using c by (subst create_loop.simps) simp
  next
    case (Inr tb)
    show ?thesis
    proof (cases "store_slot h (p_entries tb) c NULL")
      case (Inl f)
      then show ?thesis using c Inr by (subst create_loop.simps) simp
    next
      case (Inr h')
      have "\<exists>f. create_loop h' p (c + 1) C = Inl f"
        using Suc.hyps(2) Suc.prems c by (intro Suc.hyps(1)) simp_all
      then show ?thesis
        using c Inr \<open>load_table h p = Inr tb\<close> by (subst create_loop.simps) simp
    qed
  qed
qed

lemma sizeof_product:
  assumes "unat (C :: 64 word) \<le> 2 ^ 31 - 1"
  shows "unat (of_nat sizeof_pointer * C) div sizeof_pointer = unat C"
proof -
  have "unat (8 * C) = 8 * unat C"
    using assms by (simp add: unat_word_ariths)
  then show ?thesis
    by (simp add: sizeof_pointer_def)
qed

lemma ch_create_ok:
  assumes "t \<noteq> arr" and "unat C \<le> 2 ^ 31 - 1"
  shows "ch_create h (Addr t, Addr arr) junk C = Inr (Addr t, empty_table h t arr C)"
proof -
  let ?ss = "map junk [0 ..< unat C]"
  let ?h3 = "h(t \<mapsto> Table \<lparr>size_tab = C, p_entries = Addr arr\<rparr>, arr \<mapsto> Slots ?ss)"
  have "create_loop ?h3 (Addr t) 0 C = Inr (?h3(arr \<mapsto> Slots (take 0 ?ss @ replicate (unat C - 0) NULL)))"
    using assms by (intro create_loop_ok) simp_all
  then have loop: "create_loop ?h3 (Addr t) 0 C = Inr (empty_table h t arr C)"
    by (simp add: empty_table_def)
  have st: "store_table
              (alloc (alloc h (Addr t) (Table \<lparr>size_tab = 0, p_entries = NULL\<rparr>)) (Addr arr) (Slots ?ss))
              (Addr t) \<lparr>size_tab = C, p_entries = Addr arr\<rparr> = Inr ?h3"
    using assms(1) by (auto simp: heap_defs fun_eq_iff)
  show ?thesis
    by (simp add: ch_create_def Let_def sizeof_product [OF assms(2)] st loop del: fun_upd_apply)
qed

lemma ch_create_overflow:
  assumes "2 ^ 31 - 1 < unat C"
  shows "\<exists>f. ch_create h (Addr t, Addr arr) junk C = Inl f"
proof -
  let ?st = "store_table
      (alloc (alloc h (Addr t) (Table \<lparr>size_tab = 0, p_entries = NULL\<rparr>)) (Addr arr)
         (Slots (map junk [0 ..< unat (of_nat sizeof_pointer * C) div sizeof_pointer])))
      (Addr t) \<lparr>size_tab = C, p_entries = Addr arr\<rparr>"
  show ?thesis
  proof (cases ?st)
    case (Inl f)
    then show ?thesis
      by (simp add: ch_create_def Let_def)
  next
    case (Inr h3)
    obtain f where "create_loop h3 (Addr t) 0 C = Inl f"
      using create_loop_overflow [OF assms, of 0] by auto
    then show ?thesis
      using Inr by (simp add: ch_create_def Let_def)
  qed
qed

lemma table_inv_empty:
  assumes "t \<noteq> arr" and "C \<noteq> 0"
  shows "table_inv (empty_table h t arr C) t arr (replicate (unat C) [])"
proof -
  have "unat C < 2 ^ 64"
    using unsigned_less [of C] by simp
  moreover have "0 < unat C"
    using assms(2) by (simp add: unat_gt_0)
  ultimately show ?thesis
    using assms(1)
    by (auto simp: table_inv_def table_abs_def keys_ok_def empty_table_def cells_Nil map_replicate_const)
qed

subsection \<open>Tables in order\<close>

lemma lookup_absent: "key \<notin> n_key ` set ns \<Longrightarrow> lookup ns key = NULL"
  by (induction ns) auto

lemma lookup_present:
  "distinct (map n_key ns) \<Longrightarrow> n \<in> set ns \<Longrightarrow> lookup ns (n_key n) = n_value n"
  by (induction ns) auto

lemma lookup_snoc:
  "key \<notin> n_key ` set ns \<Longrightarrow> lookup (ns @ [new_node a ka key val]) key = val"
  by (induction ns) (auto simp: new_node_def)

lemma lookup_snoc_other:
  "key' \<noteq> key \<Longrightarrow> lookup (ns @ [new_node a ka key val]) key' = lookup ns key'"
  by (induction ns) (auto simp: new_node_def)

lemma chain_last: "chain h ns \<Longrightarrow> ns \<noteq> [] \<Longrightarrow> h (n_addr (last ns)) = Some (node_cell (last ns) NULL)"
  by (induction ns) (auto split: if_splits)

lemma slot_chain_subset:
  assumes "i < length css" and "x \<in> set (css ! i)"
  shows "x \<in> set (concat css)"
proof -
  have "css ! i \<in> set css"
    using assms(1) by simp
  then show ?thesis
    using assms(2) by auto
qed

lemma split_first_key:
  "key \<in> n_key ` set ns \<Longrightarrow>
   \<exists>pre n post. ns = pre @ n # post \<and> n_key n = key \<and> key \<notin> n_key ` set pre"
proof (induction ns)
  case Nil
  then show ?case by simp
next
  case (Cons m ns)
  show ?case
  proof (cases "n_key m = key")
    case True
    then have "m # ns = [] @ m # ns \<and> n_key m = key \<and> key \<notin> n_key ` set []"
      by simp
    then show ?thesis by blast
  next
    case False
    then have "key \<in> n_key ` set ns"
      using Cons.prems by auto
    then obtain pre n post where "ns = pre @ n # post" "n_key n = key" "key \<notin> n_key ` set pre"
      using Cons.IH by blast
    then have "m # ns = (m # pre) @ n # post \<and> n_key n = key \<and> key \<notin> n_key ` set (m # pre)"
      using False by auto
    then show ?thesis by blast
  qed
qed

lemma distinct_split_pre:
  "distinct (map n_key (pre @ n # post)) \<Longrightarrow> n_key n \<notin> n_key ` set pre \<and> n_key n \<notin> n_key ` set post"
  by auto

lemma keys_okD:
  assumes "keys_ok css" and "i < length css"
  shows "distinct (map n_key (css ! i))"
    and "\<And>n. n \<in> set (css ! i) \<Longrightarrow> slot_of (of_nat (length css)) (n_key n) = i"
  using assms unfolding keys_ok_def by blast+

lemma table_inv_put_absent:
  assumes inv: "table_inv h t arr css"
    and absent: "key \<notin> n_key ` set (css ! slot_of (of_nat (length css)) key)"
    and fresh: "a \<noteq> ka" "h a = None" "h ka = None"
  shows "table_inv (put_heap h arr css (slot_of (of_nat (length css)) key) (new_node a ka key val)) t arr
           (css[slot_of (of_nat (length css)) key :=
                  css ! slot_of (of_nat (length css)) key @ [new_node a ka key val]])"
proof -
  let ?i = "slot_of (of_nat (length css)) key"
  have tab: "table_abs h t arr css" and ne: "css \<noteq> []" and ok: "keys_ok css"
    using inv by (simp_all add: table_inv_def)
  have i: "?i < length css"
    using tab ne by (rule table_abs_slot)
  have "keys_ok (css[?i := css ! ?i @ [new_node a ka key val]])"
  proof (rule keys_ok_update [OF ok i])
    show "distinct (map n_key (css ! ?i @ [new_node a ka key val]))"
      using keys_okD(1) [OF ok i] absent by (simp add: new_node_def)
    show "slot_of (of_nat (length css)) (n_key n) = ?i" if "n \<in> set (css ! ?i @ [new_node a ka key val])" for n
      using keys_okD(2) [OF ok i, of n] that by (auto simp: new_node_def)
  qed
  then show ?thesis
    using ch_put_absent(2) [OF tab ne absent fresh] ne by (simp add: table_inv_def)
qed

lemma table_inv_put_present:
  assumes inv: "table_inv h t arr css"
    and split: "css ! slot_of (of_nat (length css)) key = pre @ n # post" and n: "n_key n = key"
  shows "table_inv (h(n_addr n \<mapsto> node_cell (n\<lparr>n_value := val\<rparr>) (head_ptr post))) t arr
           (css[slot_of (of_nat (length css)) key := pre @ n\<lparr>n_value := val\<rparr> # post])"
proof -
  let ?i = "slot_of (of_nat (length css)) key"
  have tab: "table_abs h t arr css" and ne: "css \<noteq> []" and ok: "keys_ok css"
    using inv by (simp_all add: table_inv_def)
  have i: "?i < length css"
    using tab ne by (rule table_abs_slot)
  have d: "distinct (map n_key (pre @ n # post))"
    using keys_okD(1) [OF ok i] split by simp
  have pre: "key \<notin> n_key ` set pre"
    using d n by auto
  have "keys_ok (css[?i := pre @ n\<lparr>n_value := val\<rparr> # post])"
  proof (rule keys_ok_update [OF ok i])
    show "distinct (map n_key (pre @ n\<lparr>n_value := val\<rparr> # post))"
      using d by simp
    show "slot_of (of_nat (length css)) (n_key m) = ?i" if "m \<in> set (pre @ n\<lparr>n_value := val\<rparr> # post)" for m
    proof -
      have "\<forall>x\<in>set (pre @ n # post). slot_of (of_nat (length css)) (n_key x) = ?i"
        using keys_okD(2) [OF ok i] split by simp
      then show ?thesis using that by auto
    qed
  qed
  then show ?thesis
    using ch_put_present(2) [OF tab ne split pre n] ne by (simp add: table_inv_def)
qed

lemma table_inv_delete:
  assumes inv: "table_inv h t arr css"
    and split: "css ! slot_of (of_nat (length css)) key = pre @ n # post" and n: "n_key n = key"
  shows "table_inv (delete_heap h arr css (slot_of (of_nat (length css)) key) pre n post) t arr
           (css[slot_of (of_nat (length css)) key := pre @ post])"
proof -
  let ?i = "slot_of (of_nat (length css)) key"
  have tab: "table_abs h t arr css" and ne: "css \<noteq> []" and ok: "keys_ok css"
    using inv by (simp_all add: table_inv_def)
  have i: "?i < length css"
    using tab ne by (rule table_abs_slot)
  have d: "distinct (map n_key (pre @ n # post))"
    using keys_okD(1) [OF ok i] split by simp
  have pre: "key \<notin> n_key ` set pre"
    using d n by auto
  have "keys_ok (css[?i := pre @ post])"
  proof (rule keys_ok_update [OF ok i])
    show "distinct (map n_key (pre @ post))"
      using d by simp
    show "slot_of (of_nat (length css)) (n_key m) = ?i" if "m \<in> set (pre @ post)" for m
    proof -
      have "\<forall>x\<in>set (pre @ n # post). slot_of (of_nat (length css)) (n_key x) = ?i"
        using keys_okD(2) [OF ok i] split by simp
      then show ?thesis using that by auto
    qed
  qed
  then show ?thesis
    using ch_delete_present(2) [OF tab ne split pre n] ne by (simp add: table_inv_def)
qed

subsection \<open>The claims about delete\<close>

lemma slot_of_one: "slot_of 1 key = 0"
  by (simp add: slot_of_def)

lemma ex_heap_inv: "table_inv ex_heap 1 2 [[ex_a, ex_b]]"
  by (simp add: table_inv_def table_abs_def keys_ok_def ex_heap_def ex_a_def ex_b_def
        node_cell_def cells_def slot_of_one)

text \<open>
  C6. On a table in order, deleting a key that is present (the entry \<open>n\<close> of its slot,
  between \<open>pre\<close> and \<open>post\<close>) returns the stored value reference and leaves the heap
  \<open>delete_heap\<close>: the slot head is updated when \<open>n\<close> is the head, the next-link of the
  previous entry otherwise, and the entry and its key are released. The table is in order
  again, with exactly this entry removed from its chain, and a subsequent get of the key
  returns \<^verbatim>\<open>NULL\<close>. Deleting a key that is absent returns \<^verbatim>\<open>NULL\<close> and leaves the heap as it was.
\<close>

theorem ch_delete_correct:
  assumes "table_inv h t arr css"
  shows "(\<forall>pre n post. css ! slot_of (of_nat (length css)) key = pre @ n # post \<and> n_key n = key \<longrightarrow>
            ch_delete h (Addr t) key =
              Some (Inr (n_value n, delete_heap h arr css (slot_of (of_nat (length css)) key) pre n post)) \<and>
            table_inv (delete_heap h arr css (slot_of (of_nat (length css)) key) pre n post) t arr
              (css[slot_of (of_nat (length css)) key := pre @ post]) \<and>
            ch_get (delete_heap h arr css (slot_of (of_nat (length css)) key) pre n post) (Addr t) key =
              Some (Inr NULL)) \<and>
         (key \<notin> n_key ` set (concat css) \<longrightarrow> ch_delete h (Addr t) key = Some (Inr (NULL, h)))"
proof (intro conjI allI impI)
  let ?i = "slot_of (of_nat (length css)) key"
  have tab: "table_abs h t arr css" and ne: "css \<noteq> []" and ok: "keys_ok css"
    using assms by (simp_all add: table_inv_def)
  have i: "?i < length css"
    using tab ne by (rule table_abs_slot)
  {
    fix pre n post
    assume "css ! ?i = pre @ n # post \<and> n_key n = key"
    then have split: "css ! ?i = pre @ n # post" and n: "n_key n = key"
      by simp_all
    let ?h = "delete_heap h arr css ?i pre n post"
    have d: "distinct (map n_key (pre @ n # post))"
      using keys_okD(1) [OF ok i] split by simp
    have pre: "key \<notin> n_key ` set pre"
      using d n by auto
    show "ch_delete h (Addr t) key = Some (Inr (n_value n, ?h))"
      by (rule ch_delete_present(1) [OF tab ne split pre n])
    show inv': "table_inv ?h t arr (css[?i := pre @ post])"
      by (rule table_inv_delete [OF assms split n])
    have "key \<notin> n_key ` set (pre @ post)"
      using d n by auto
    then have "lookup (css[?i := pre @ post] ! ?i) key = NULL"
      using i by (simp add: lookup_absent)
    then show "ch_get ?h (Addr t) key = Some (Inr NULL)"
      using ch_get_lookup [of ?h t arr "css[?i := pre @ post]" key] inv'
      by (simp add: table_inv_def)
  }
  assume "key \<notin> n_key ` set (concat css)"
  then have "key \<notin> n_key ` set (css ! ?i)"
    using slot_chain_subset [OF i] by auto
  then show "ch_delete h (Addr t) key = Some (Inr (NULL, h))"
    by (rule ch_delete_absent [OF tab ne])
qed

theorem ch_delete_correct_witness:
  "table_inv ex_heap 1 2 [[ex_a, ex_b]] \<and>
   ch_delete ex_heap (Addr 1) ''a'' = Some (Inr (Addr 100, delete_heap ex_heap 2 [[ex_a, ex_b]] 0 [] ex_a [ex_b])) \<and>
   table_inv (delete_heap ex_heap 2 [[ex_a, ex_b]] 0 [] ex_a [ex_b]) 1 2 [[ex_b]] \<and>
   ch_get (delete_heap ex_heap 2 [[ex_a, ex_b]] 0 [] ex_a [ex_b]) (Addr 1) ''a'' = Some (Inr NULL) \<and>
   ch_delete ex_heap (Addr 1) ''c'' = Some (Inr (NULL, ex_heap))"
proof -
  note inst = ch_delete_correct [OF ex_heap_inv]
  have 1: "[[ex_a, ex_b]] ! slot_of (of_nat (length [[ex_a, ex_b]])) ''a'' = [] @ ex_a # [ex_b] \<and> n_key ex_a = ''a''"
    by (simp add: slot_of_one ex_a_def)
  have 2: "''c'' \<notin> n_key ` set (concat [[ex_a, ex_b]])"
    by (simp add: ex_a_def ex_b_def)
  have 3: "n_value ex_a = Addr 100"
    by (simp add: ex_a_def)
  show ?thesis
    using inst [of "''a''", THEN conjunct1, rule_format, OF 1]
      inst [of "''c''", THEN conjunct2, rule_format, OF 2] ex_heap_inv
    by (simp add: slot_of_one 3)
qed

subsection \<open>The claims about put, get and delete together\<close>

lemma list_update_head_null:
  assumes "i < length css" and "css ! i = []"
  shows "(map head_ptr (css[i := [new]]))[i := head_ptr []] = map head_ptr css"
proof -
  have "(map head_ptr css)[i := NULL] = map head_ptr css"
    using assms by (simp add: list_update_same_conv)
  then show ?thesis
    by (simp add: map_update)
qed

text \<open>
  C10. On a table in order that does not hold the key, a put whose two allocations succeed
  returns a heap on which deleting the key returns the value reference just stored and
  gives back the heap before the put, block for block.
\<close>

theorem put_delete_roundtrip:
  assumes inv: "table_inv h t arr css" and absent: "key \<notin> n_key ` set (concat css)"
    and fresh: "a \<noteq> ka" "h a = None" "h ka = None"
  shows "\<exists>h1. ch_put h (Addr a, Addr ka) (Addr t) key val = Some (Inr (val, h1)) \<and>
              ch_delete h1 (Addr t) key = Some (Inr (val, h))"
proof -
  let ?i = "slot_of (of_nat (length css)) key"
  let ?new = "new_node a ka key val"
  let ?ns = "css ! ?i"
  let ?h1 = "put_heap h arr css ?i ?new"
  let ?css1 = "css[?i := ?ns @ [?new]]"
  have tab: "table_abs h t arr css" and ne: "css \<noteq> []"
    using inv by (simp_all add: table_inv_def)
  note D = table_absD [OF tab]
  have i: "?i < length css"
    using tab ne by (rule table_abs_slot)
  have abs_slot: "key \<notin> n_key ` set ?ns"
    using absent slot_chain_subset [OF i] by auto
  have put: "ch_put h (Addr a, Addr ka) (Addr t) key val = Some (Inr (val, ?h1))"
    by (rule ch_put_absent(1) [OF tab ne abs_slot fresh])
  have tab1: "table_abs ?h1 t arr ?css1"
    by (rule ch_put_absent(2) [OF tab ne abs_slot fresh])
  have len1: "length ?css1 = length css"
    by simp
  have ne1: "?css1 \<noteq> []"
    using ne by simp
  have split: "?css1 ! slot_of (of_nat (length ?css1)) key = ?ns @ ?new # []"
    using i by simp
  have nk: "n_key ?new = key"
    by (simp add: new_node_def)
  have del: "ch_delete ?h1 (Addr t) key =
        Some (Inr (n_value ?new, delete_heap ?h1 arr ?css1 (slot_of (of_nat (length ?css1)) key) ?ns ?new []))"
    by (rule ch_delete_present(1) [OF tab1 ne1 split abs_slot nk])
  have at: "a \<noteq> arr" "ka \<noteq> arr"
    using D(3) fresh by auto
  have restored: "delete_heap ?h1 arr ?css1 ?i ?ns ?new [] = h"
  proof (cases "?ns = []")
    case True
    have "(map head_ptr ?css1)[?i := head_ptr []] = map head_ptr css"
      using list_update_head_null [OF i True] True by simp
    then show ?thesis
      using True D(3) fresh at
      by (auto simp: delete_heap_def put_heap_def Let_def new_node_def fun_eq_iff)
  next
    case False
    have l: "h (n_addr (last ?ns)) = Some (node_cell (last ?ns) NULL)"
      using D(5) [OF i] False by (rule chain_last)
    then have "n_addr (last ?ns) \<noteq> a" "n_addr (last ?ns) \<noteq> ka"
      using fresh by auto
    then show ?thesis
      using False l fresh
      by (auto simp: delete_heap_def put_heap_def Let_def new_node_def fun_eq_iff)
  qed
  have "ch_delete ?h1 (Addr t) key = Some (Inr (val, h))"
    using del restored by (simp add: new_node_def)
  then show ?thesis
    using put by blast
qed

theorem put_delete_roundtrip_witness:
  "table_inv ex_heap 1 2 [[ex_a, ex_b]] \<and> ''c'' \<notin> n_key ` set (concat [[ex_a, ex_b]]) \<and>
   ex_heap 7 = None \<and> ex_heap 8 = None \<and>
   (\<exists>h1. ch_put ex_heap (Addr 7, Addr 8) (Addr 1) ''c'' (Addr 300) = Some (Inr (Addr 300, h1)) \<and>
         ch_delete h1 (Addr 1) ''c'' = Some (Inr (Addr 300, ex_heap)))"
proof -
  have 1: "''c'' \<notin> n_key ` set (concat [[ex_a, ex_b]])"
    by (simp add: ex_a_def ex_b_def)
  have 2: "(7::nat) \<noteq> 8" "ex_heap 7 = None" "ex_heap 8 = None"
    by (simp_all add: ex_heap_def)
  show ?thesis
    using put_delete_roundtrip [OF ex_heap_inv 1 2, of "Addr 300"] ex_heap_inv 1 2 by simp
qed

text \<open>
  C4, as amended. On a table in order that holds the key, in the entry \<open>n\<close> of its slot,
  put overwrites the value reference of that entry in place: the heap changes at the block
  of \<open>n\<close> only, nothing is allocated whatever \<^verbatim>\<open>malloc\<close> would return, and the table stays
  in order with the same entries. The reference returned is the one just stored.
\<close>

theorem ch_put_overwrites:
  assumes inv: "table_inv h t arr css"
    and split: "css ! slot_of (of_nat (length css)) key = pre @ n # post" and n: "n_key n = key"
  shows "ch_put h mr (Addr t) key val =
           Some (Inr (val, h(n_addr n \<mapsto> node_cell (n\<lparr>n_value := val\<rparr>) (head_ptr post)))) \<and>
         table_inv (h(n_addr n \<mapsto> node_cell (n\<lparr>n_value := val\<rparr>) (head_ptr post))) t arr
           (css[slot_of (of_nat (length css)) key := pre @ n\<lparr>n_value := val\<rparr> # post]) \<and>
         dom (h(n_addr n \<mapsto> node_cell (n\<lparr>n_value := val\<rparr>) (head_ptr post))) = dom h"
proof -
  let ?i = "slot_of (of_nat (length css)) key"
  have tab: "table_abs h t arr css" and ne: "css \<noteq> []" and ok: "keys_ok css"
    using inv by (simp_all add: table_inv_def)
  have i: "?i < length css"
    using tab ne by (rule table_abs_slot)
  have d: "distinct (map n_key (pre @ n # post))"
    using keys_okD(1) [OF ok i] split by simp
  have pre: "key \<notin> n_key ` set pre"
    using d n by auto
  have "chain h (pre @ n # post)"
    using table_absD(5) [OF tab i] split by simp
  then have "h (n_addr n) \<noteq> None"
    using chain_split [of h pre n post] by simp
  then have "dom (h(n_addr n \<mapsto> node_cell (n\<lparr>n_value := val\<rparr>) (head_ptr post))) = dom h"
    by auto
  then show ?thesis
    using ch_put_present(1) [OF tab ne split pre n] table_inv_put_present [OF inv split n]
    by simp
qed

theorem ch_put_overwrites_witness:
  "table_inv ex_heap 1 2 [[ex_a, ex_b]] \<and>
   ch_put ex_heap (Addr 7, Addr 8) (Addr 1) ''b'' (Addr 300) =
     Some (Inr (Addr 300, ex_heap(5 \<mapsto> Property \<lparr>p_key = Addr 6, p_value = Addr 300, p_next = NULL\<rparr>)))"
proof -
  have 1: "[[ex_a, ex_b]] ! slot_of (of_nat (length [[ex_a, ex_b]])) ''b'' = [ex_a] @ ex_b # []"
    by (simp add: slot_of_one)
  have 2: "n_key ex_b = ''b''"
    by (simp add: ex_b_def)
  show ?thesis
    using ch_put_overwrites [OF ex_heap_inv 1 2, of "(Addr 7, Addr 8)" "Addr 300"] ex_heap_inv
    by (simp add: node_cell_def ex_b_def)
qed

text \<open>
  The claim as stated fails: the table holds \<open>a\<close> with the value reference 100, and
  putting 300 under \<open>a\<close> returns 300, not the reference 100 stored before.
\<close>

theorem ch_put_returns_new_counterexample:
  "ch_get ex_heap (Addr 1) ''a'' = Some (Inr (Addr 100)) \<and>
   map_option (map_sum id fst) (ch_put ex_heap (Addr 7, Addr 8) (Addr 1) ''a'' (Addr 300)) =
     Some (Inr (Addr 300)) \<and>
   Addr 300 \<noteq> Addr 100"
proof -
  have tab: "table_abs ex_heap 1 2 [[ex_a, ex_b]]"
    using ex_heap_inv by (simp add: table_inv_def)
  have 1: "[[ex_a, ex_b]] ! slot_of (of_nat (length [[ex_a, ex_b]])) ''a'' = [] @ ex_a # [ex_b]"
    by (simp add: slot_of_one)
  have "ch_get ex_heap (Addr 1) ''a'' = Some (Inr (Addr 100))"
    using ch_get_lookup [OF tab, of "''a''"] by (simp add: slot_of_one ex_a_def)
  moreover have "map_option (map_sum id fst) (ch_put ex_heap (Addr 7, Addr 8) (Addr 1) ''a'' (Addr 300)) =
     Some (Inr (Addr 300))"
    using ch_put_present(1) [OF tab _ 1, where mr = "(Addr 7, Addr 8)" and val = "Addr 300"]
    by (simp add: ex_a_def)
  ultimately show ?thesis
    by simp
qed

text \<open>
  C7, as amended. On a table in order, get returns the value reference its slot's chain
  holds for the key, and \<^verbatim>\<open>NULL\<close> stands for not found: for a key that is absent, get and
  delete return \<^verbatim>\<open>NULL\<close>; for a key that is present, both return the stored value
  reference. So a present key is told from an absent one exactly when the stored reference
  is not \<^verbatim>\<open>NULL\<close>.
\<close>

theorem not_found_is_null:
  assumes inv: "table_inv h t arr css"
  shows "(key \<notin> n_key ` set (concat css) \<longrightarrow>
            ch_get h (Addr t) key = Some (Inr NULL) \<and>
            ch_delete h (Addr t) key = Some (Inr (NULL, h))) \<and>
         (\<forall>n\<in>set (css ! slot_of (of_nat (length css)) key). n_key n = key \<longrightarrow>
            ch_get h (Addr t) key = Some (Inr (n_value n)) \<and>
            (\<exists>h'. ch_delete h (Addr t) key = Some (Inr (n_value n, h'))))"
proof (intro conjI impI ballI)
  let ?i = "slot_of (of_nat (length css)) key"
  have tab: "table_abs h t arr css" and ne: "css \<noteq> []" and ok: "keys_ok css"
    using inv by (simp_all add: table_inv_def)
  have i: "?i < length css"
    using tab ne by (rule table_abs_slot)
  have get: "ch_get h (Addr t) key = Some (Inr (lookup (css ! ?i) key))"
    by (rule ch_get_lookup [OF tab ne])
  {
    assume "key \<notin> n_key ` set (concat css)"
    then have a: "key \<notin> n_key ` set (css ! ?i)"
      using slot_chain_subset [OF i] by auto
    then show "ch_get h (Addr t) key = Some (Inr NULL)"
      using get by (simp add: lookup_absent)
    show "ch_delete h (Addr t) key = Some (Inr (NULL, h))"
      by (rule ch_delete_absent [OF tab ne a])
  }
  fix n assume n_in: "n \<in> set (css ! ?i)" and nk: "n_key n = key"
  show "ch_get h (Addr t) key = Some (Inr (n_value n))"
    using get lookup_present [OF keys_okD(1) [OF ok i] n_in] nk by simp
  obtain pre post where split: "css ! ?i = pre @ n # post"
    using n_in by (meson split_list)
  have "distinct (map n_key (pre @ n # post))"
    using keys_okD(1) [OF ok i] split by simp
  then have pre: "key \<notin> n_key ` set pre"
    using nk by auto
  show "\<exists>h'. ch_delete h (Addr t) key = Some (Inr (n_value n, h'))"
    using ch_delete_present(1) [OF tab ne split pre nk] by blast
qed

theorem not_found_is_null_witness:
  "table_inv ex_heap 1 2 [[ex_a, ex_b]] \<and>
   ch_get ex_heap (Addr 1) ''c'' = Some (Inr NULL) \<and>
   ch_get ex_heap (Addr 1) ''a'' = Some (Inr (Addr 100)) \<and>
   (\<exists>h'. ch_delete ex_heap (Addr 1) ''a'' = Some (Inr (Addr 100, h')))"
proof -
  have 1: "''c'' \<notin> n_key ` set (concat [[ex_a, ex_b]])"
    by (simp add: ex_a_def ex_b_def)
  have 2: "ex_a \<in> set ([[ex_a, ex_b]] ! slot_of (of_nat (length [[ex_a, ex_b]])) ''a'')"
    by (simp add: slot_of_one)
  have 3: "n_key ex_a = ''a''" "n_value ex_a = Addr 100"
    by (simp_all add: ex_a_def)
  show ?thesis
    using not_found_is_null [OF ex_heap_inv, of "''c''", THEN conjunct1, rule_format, OF 1]
      not_found_is_null [OF ex_heap_inv, of "''a''", THEN conjunct2, rule_format, OF 2 3(1)]
      ex_heap_inv 3(2)
    by simp
qed

text \<open>
  The claim as stated fails: the table holds \<open>b\<close> with the value reference \<^verbatim>\<open>NULL\<close> and
  does not hold \<open>c\<close>, and get and delete return the same for both keys.
\<close>

theorem null_value_conflated_counterexample:
  "lookup [ex_a, ex_b] ''b'' = NULL \<and> ''b'' \<in> n_key ` set [ex_a, ex_b] \<and>
   ''c'' \<notin> n_key ` set [ex_a, ex_b] \<and>
   ch_get ex_heap (Addr 1) ''b'' = ch_get ex_heap (Addr 1) ''c'' \<and>
   map_option (map_sum id fst) (ch_delete ex_heap (Addr 1) ''b'') =
   map_option (map_sum id fst) (ch_delete ex_heap (Addr 1) ''c'')"
proof -
  have tab: "table_abs ex_heap 1 2 [[ex_a, ex_b]]"
    using ex_heap_inv by (simp add: table_inv_def)
  have 1: "[[ex_a, ex_b]] ! slot_of (of_nat (length [[ex_a, ex_b]])) ''b'' = [ex_a] @ ex_b # []"
    by (simp add: slot_of_one)
  have 2: "''b'' \<notin> n_key ` set [ex_a]" "n_key ex_b = ''b''"
    by (simp_all add: ex_a_def ex_b_def)
  have 3: "''c'' \<notin> n_key ` set ([[ex_a, ex_b]] ! slot_of (of_nat (length [[ex_a, ex_b]])) ''c'')"
    by (simp add: slot_of_one ex_a_def ex_b_def)
  have "ch_get ex_heap (Addr 1) ''b'' = Some (Inr NULL)"
    using ch_get_lookup [OF tab, of "''b''"] by (simp add: slot_of_one ex_a_def ex_b_def)
  moreover have "ch_get ex_heap (Addr 1) ''c'' = Some (Inr NULL)"
    using ch_get_lookup [OF tab, of "''c''"] by (simp add: slot_of_one ex_a_def ex_b_def)
  moreover have "ch_delete ex_heap (Addr 1) ''b'' =
      Some (Inr (NULL, delete_heap ex_heap 2 [[ex_a, ex_b]] 0 [ex_a] ex_b []))"
    using ch_delete_present(1) [OF tab _ 1 2] by (simp add: ex_b_def slot_of_one)
  moreover have "ch_delete ex_heap (Addr 1) ''c'' = Some (Inr (NULL, ex_heap))"
    using ch_delete_absent [OF tab _ 3] by simp
  ultimately show ?thesis
    by (simp add: ex_a_def ex_b_def)
qed

subsection \<open>The claim about put followed by get\<close>

lemma put_heap_None:
  assumes tab: "table_abs h t arr css" and i: "i < length css" and "h x = None"
    and "x \<noteq> n_addr new" and "x \<noteq> n_kaddr new"
  shows "put_heap h arr css i new x = None"
proof -
  have "x \<noteq> arr"
    using table_absD(3) [OF tab] assms(3) by auto
  moreover have "x \<noteq> n_addr (last (css ! i))" if "css ! i \<noteq> []"
    using chain_allocated [OF table_absD(5) [OF tab i] last_in_cells [OF that]] assms(3) by auto
  ultimately show ?thesis
    using assms(3,4,5) by (auto simp: put_heap_def Let_def)
qed

lemma node_eq_new_node: "new_node (n_addr n) (n_kaddr n) (n_key n) (n_value n) = n"
  by (simp add: new_node_def)

lemma ch_puts_lookup:
  assumes "table_inv h t arr css"
    and "distinct (map n_key ns)"
    and "\<forall>n\<in>set ns. \<forall>j<length css. n_key n \<notin> n_key ` set (css ! j)"
    and "distinct (cells ns)"
    and "\<forall>x\<in>set (cells ns). h x = None"
  shows "\<exists>h' css'. ch_puts h (Addr t) ns = Some (Inr h') \<and> table_inv h' t arr css' \<and>
           length css' = length css \<and>
           (\<forall>n\<in>set ns. lookup (css' ! slot_of (of_nat (length css)) (n_key n)) (n_key n) = n_value n) \<and>
           (\<forall>key. key \<notin> n_key ` set ns \<longrightarrow>
              lookup (css' ! slot_of (of_nat (length css)) key) key =
              lookup (css ! slot_of (of_nat (length css)) key) key)"
  using assms
proof (induction ns arbitrary: h css)
  case Nil
  then show ?case by auto
next
  case (Cons n ns)
  let ?key = "n_key n"
  let ?i = "slot_of (of_nat (length css)) ?key"
  let ?h1 = "put_heap h arr css ?i n"
  let ?css1 = "css[?i := css ! ?i @ [n]]"
  have tab: "table_abs h t arr css" and ne: "css \<noteq> []"
    using Cons.prems(1) by (simp_all add: table_inv_def)
  have i: "?i < length css"
    using tab ne by (rule table_abs_slot)
  have absent: "?key \<notin> n_key ` set (css ! ?i)"
    using Cons.prems(3) i by auto
  have fresh: "n_addr n \<noteq> n_kaddr n" "h (n_addr n) = None" "h (n_kaddr n) = None"
    using Cons.prems(4,5) by (simp_all add: cells_Cons)
  have put: "ch_put h (Addr (n_addr n), Addr (n_kaddr n)) (Addr t) ?key (n_value n) =
        Some (Inr (n_value n, ?h1))"
    using ch_put_absent(1) [OF tab ne absent fresh, of "n_value n"] by (simp add: node_eq_new_node)
  have inv1: "table_inv ?h1 t arr ?css1"
    using table_inv_put_absent [OF Cons.prems(1) absent fresh, of "n_value n"]
    by (simp add: node_eq_new_node)
  have p2: "distinct (map n_key ns)"
    using Cons.prems(2) by simp
  have p3: "\<forall>m\<in>set ns. \<forall>j<length ?css1. n_key m \<notin> n_key ` set (?css1 ! j)"
  proof (intro ballI allI impI)
    fix m j assume m: "m \<in> set ns" and j: "j < length ?css1"
    have "n_key m \<in> n_key ` set ns"
      using m by (rule imageI)
    then have "n_key m \<noteq> ?key"
      using Cons.prems(2) by auto
    moreover have "n_key m \<notin> n_key ` set (css ! j)"
      using Cons.prems(3) m j by simp
    ultimately show "n_key m \<notin> n_key ` set (?css1 ! j)"
      using j by (cases "j = ?i") auto
  qed
  have p4: "distinct (cells ns)"
    using Cons.prems(4) by (simp add: cells_Cons)
  have p5: "\<forall>x\<in>set (cells ns). ?h1 x = None"
  proof
    fix x assume x: "x \<in> set (cells ns)"
    then have "h x = None" "x \<noteq> n_addr n" "x \<noteq> n_kaddr n"
      using Cons.prems(4,5) by (auto simp: cells_Cons)
    then show "?h1 x = None"
      by (intro put_heap_None [OF tab i])
  qed
  obtain h' css' where res: "ch_puts ?h1 (Addr t) ns = Some (Inr h')" "table_inv h' t arr css'"
      "length css' = length ?css1"
      "\<forall>m\<in>set ns. lookup (css' ! slot_of (of_nat (length ?css1)) (n_key m)) (n_key m) = n_value m"
      "\<forall>key. key \<notin> n_key ` set ns \<longrightarrow>
         lookup (css' ! slot_of (of_nat (length ?css1)) key) key =
         lookup (?css1 ! slot_of (of_nat (length ?css1)) key) key"
    using Cons.IH [OF inv1 p2 p3 p4 p5] by blast
  have len: "length ?css1 = length css"
    by simp
  have 1: "ch_puts h (Addr t) (n # ns) = Some (Inr h')"
    using put res(1) by simp
  have nk: "?key \<notin> n_key ` set ns"
    using Cons.prems(2) by auto
  have 2: "lookup (css' ! ?i) ?key = n_value n"
  proof -
    have "lookup (css' ! ?i) ?key = lookup (?css1 ! ?i) ?key"
      using res(5) nk len by simp
    also have "\<dots> = lookup (css ! ?i @ [new_node (n_addr n) (n_kaddr n) ?key (n_value n)]) ?key"
      using i by (simp add: node_eq_new_node)
    also have "\<dots> = n_value n"
      using absent by (rule lookup_snoc)
    finally show ?thesis .
  qed
  have 3: "lookup (css' ! slot_of (of_nat (length css)) key) key =
           lookup (css ! slot_of (of_nat (length css)) key) key"
    if "key \<notin> n_key ` set (n # ns)" for key
  proof -
    have k: "key \<noteq> ?key" "key \<notin> n_key ` set ns"
      using that by auto
    have "lookup (css' ! slot_of (of_nat (length css)) key) key =
          lookup (?css1 ! slot_of (of_nat (length css)) key) key"
      using res(5) k(2) len by simp
    also have "\<dots> = lookup (css ! slot_of (of_nat (length css)) key) key"
    proof (cases "slot_of (of_nat (length css)) key = ?i")
      case True
      have "lookup (css ! ?i @ [new_node (n_addr n) (n_kaddr n) ?key (n_value n)]) key =
            lookup (css ! ?i) key"
        using k(1) by (rule lookup_snoc_other)
      then show ?thesis
        using True i by (simp add: node_eq_new_node)
    next
      case False
      then show ?thesis by simp
    qed
    finally show ?thesis .
  qed
  show ?case
    using 1 res(2,3,4) 2 3 len by auto
qed

text \<open>
  C1. Take a table that \<^verbatim>\<open>ch_create\<close> returned for a capacity \<open>C\<close> of at least 1, and any
  sequence of puts with pairwise distinct keys whose allocations all succeed, each call
  receiving two blocks that are not live. Then every put returns, and in the resulting
  heap get returns for every key of the sequence the value reference put under it, however
  many keys share a slot.
\<close>

theorem put_then_get:
  assumes create: "ch_create h0 (Addr t, Addr arr) junk C = Inr (p, h)"
    and cap: "C \<noteq> 0" and tarr: "t \<noteq> arr"
    and keys: "distinct (map n_key ns)"
    and fresh: "distinct (cells ns)" "\<forall>x\<in>set (cells ns). h x = None"
  shows "\<exists>h'. ch_puts h p ns = Some (Inr h') \<and>
              (\<forall>n\<in>set ns. ch_get h' p (n_key n) = Some (Inr (n_value n)))"
proof -
  have small: "unat C \<le> 2 ^ 31 - 1"
  proof (rule ccontr)
    assume "\<not> unat C \<le> 2 ^ 31 - 1"
    then have "2 ^ 31 - 1 < unat C" by simp
    then show False
      using ch_create_overflow [of C h0 t arr junk] create by auto
  qed
  have p: "p = Addr t" and h: "h = empty_table h0 t arr C"
    using ch_create_ok [OF tarr small, of h0 junk] create by simp_all
  let ?css = "replicate (unat C) ([] :: node list)"
  have inv: "table_inv h t arr ?css"
    unfolding h by (rule table_inv_empty [OF tarr cap])
  have empty: "\<forall>n\<in>set ns. \<forall>j<length ?css. n_key n \<notin> n_key ` set (?css ! j)"
    by simp
  obtain h' css' where res: "ch_puts h (Addr t) ns = Some (Inr h')" "table_inv h' t arr css'"
      "length css' = length ?css"
      "\<forall>n\<in>set ns. lookup (css' ! slot_of (of_nat (length ?css)) (n_key n)) (n_key n) = n_value n"
    using ch_puts_lookup [OF inv keys empty fresh] by blast
  have "ch_get h' (Addr t) (n_key n) = Some (Inr (n_value n))" if "n \<in> set ns" for n
    using ch_get_lookup [of h' t arr css' "n_key n"] res(2,3,4) that
    by (simp add: table_inv_def)
  then show ?thesis
    using res(1) p by auto
qed

theorem put_then_get_witness:
  "ch_create Map.empty (Addr 1, Addr 2) (\<lambda>i. Addr 9) 1 = Inr (Addr 1, empty_table Map.empty 1 2 1) \<and>
   distinct (map n_key [ex_a, ex_c]) \<and> distinct (cells [ex_a, ex_c]) \<and>
   (\<exists>h'. ch_puts (empty_table Map.empty 1 2 1) (Addr 1) [ex_a, ex_c] = Some (Inr h') \<and>
         ch_get h' (Addr 1) ''a'' = Some (Inr (Addr 100)) \<and>
         ch_get h' (Addr 1) ''c'' = Some (Inr (Addr 200)))"
proof -
  have 1: "ch_create Map.empty (Addr 1, Addr 2) (\<lambda>i. Addr 9) 1 = Inr (Addr 1, empty_table Map.empty 1 2 1)"
    by (rule ch_create_ok) simp_all
  have 2: "(1 :: 64 word) \<noteq> 0" "(1 :: nat) \<noteq> 2"
    by simp_all
  have 3: "distinct (map n_key [ex_a, ex_c])" "distinct (cells [ex_a, ex_c])"
    by (simp_all add: ex_a_def ex_c_def cells_def)
  have 4: "\<forall>x\<in>set (cells [ex_a, ex_c]). empty_table Map.empty 1 2 1 x = None"
    by (simp add: ex_a_def ex_c_def cells_def empty_table_def)
  show ?thesis
    using put_then_get [OF 1 2 3 4] 1 3 by (simp add: ex_a_def ex_c_def)
qed

subsection \<open>The claims about allocation failure\<close>

lemma put_loop_tail_no_key:
  assumes "chain h (m # ns)" and "key \<notin> n_key ` set ns" and "h a = None"
  shows "put_loop h (Addr a, NULL) (Addr (n_addr m)) (head_ptr ns) key val = Some (Inr (val, h))"
  using assms
proof (induction ns arbitrary: m)
  case Nil
  have "h(n_addr m \<mapsto> node_cell m NULL) = h"
    using Nil.prems(1) by (auto simp: fun_eq_iff)
  then show ?case
    using Nil by (subst put_loop.simps) (simp add: construct_no_key heap_defs node_cell_def)
next
  case (Cons n ns)
  have "put_loop h (Addr a, NULL) (Addr (n_addr m)) (head_ptr (n # ns)) key val =
        put_loop h (Addr a, NULL) (Addr (n_addr n)) (head_ptr ns) key val"
    using Cons.prems by (subst put_loop.simps) (auto simp add: heap_defs node_cell_def)
  then show ?case
    using Cons.IH [of n] Cons.prems by simp
qed

lemma ch_put_no_key:
  assumes tab: "table_abs h t arr css" and ne: "css \<noteq> []"
    and absent: "key \<notin> n_key ` set (css ! slot_of (of_nat (length css)) key)"
    and fresh: "h a = None"
  shows "ch_put h (Addr a, NULL) (Addr t) key val = Some (Inr (val, h))"
proof -
  let ?i = "slot_of (of_nat (length css)) key"
  let ?ns = "css ! ?i"
  note D = table_absD [OF tab]
  have i: "?i < length css"
    using tab ne by (rule table_abs_slot)
  have nz: "(of_nat (length css) :: 64 word) \<noteq> 0"
    using tab ne by (rule table_abs_size_nonzero)
  show ?thesis
  proof (cases ?ns)
    case Nil
    then have "(map head_ptr css)[?i := NULL] = map head_ptr css"
      using i by (simp add: list_update_same_conv)
    then have "h(arr \<mapsto> Slots ((map head_ptr css)[?i := NULL])) = h"
      using D(3) by (auto simp: fun_eq_iff)
    then show ?thesis
      using Nil D(2,3) i nz fresh
      by (simp add: ch_put_def heap_defs construct_no_key)
  next
    case (Cons m ms)
    have ch: "chain h (m # ms)"
      using D(5) [OF i] Cons by simp
    have k: "key \<noteq> n_key m" "key \<notin> n_key ` set ms"
      using absent Cons by auto
    have "ch_put h (Addr a, NULL) (Addr t) key val =
          put_loop h (Addr a, NULL) NULL (Addr (n_addr m)) key val"
      using D(2,3) i nz Cons by (simp add: ch_put_def heap_defs)
    also have "\<dots> = put_loop h (Addr a, NULL) (Addr (n_addr m)) (head_ptr ms) key val"
      using ch k(1) by (subst put_loop.simps) (auto simp add: heap_defs node_cell_def)
    also have "\<dots> = Some (Inr (val, h))"
      by (rule put_loop_tail_no_key [OF ch k(2) fresh])
    finally show ?thesis .
  qed
qed

lemma ch_create_no_slots:
  assumes "h t = None"
  shows "ch_create h (Addr t, NULL) junk C = Inr (NULL, h)"
proof -
  have "h(t := None) = h"
    using assms by (auto simp: fun_eq_iff)
  then show ?thesis
    by (simp add: ch_create_def Let_def heap_defs ch_destroy_def sizeof_pointer_def
          sizeof_t_property_def)
qed

lemma ch_create_no_table: "ch_create h (NULL, r) junk C = Inl NullDeref"
  by (simp add: ch_create_def Let_def heap_defs split: ptr.splits)

lemma ch_put_no_entry:
  assumes tab: "table_abs h t arr css" and ne: "css \<noteq> []"
    and empty: "css ! slot_of (of_nat (length css)) key = []"
  shows "ch_put h (NULL, r) (Addr t) key val = Some (Inl NullDeref)"
proof -
  note D = table_absD [OF tab]
  have i: "slot_of (of_nat (length css)) key < length css"
    using tab ne by (rule table_abs_slot)
  have nz: "(of_nat (length css) :: 64 word) \<noteq> 0"
    using tab ne by (rule table_abs_size_nonzero)
  show ?thesis
    using D(2,3) i nz empty by (simp add: ch_put_def heap_defs construct_no_entry)
qed

text \<open>
  C5, as amended. When the slot array cannot be allocated, \<^verbatim>\<open>ch_create\<close> releases the
  table block and returns \<^verbatim>\<open>NULL\<close>, leaving the heap as it was. A capacity of zero is not
  refused: with both allocations succeeding a table with no slots is returned. When the
  copy of the key cannot be allocated during the insertion of a key the table does not
  hold, the entry block is released and the heap is left as it was, and \<^verbatim>\<open>ch_put\<close> returns
  the value reference as it does on success.
\<close>

theorem allocation_failure:
  assumes "hc tc = None" and "tc \<noteq> arrc"
    and "table_inv h t arr css" and "key \<notin> n_key ` set (concat css)" and "h a = None"
  shows "ch_create hc (Addr tc, NULL) junk C = Inr (NULL, hc) \<and>
         ch_create hc (Addr tc, Addr arrc) junk 0 = Inr (Addr tc, empty_table hc tc arrc 0) \<and>
         ch_put h (Addr a, NULL) (Addr t) key val = Some (Inr (val, h))"
proof -
  have tab: "table_abs h t arr css" and ne: "css \<noteq> []"
    using assms(3) by (simp_all add: table_inv_def)
  have i: "slot_of (of_nat (length css)) key < length css"
    using tab ne by (rule table_abs_slot)
  have absent: "key \<notin> n_key ` set (css ! slot_of (of_nat (length css)) key)"
    using assms(4) slot_chain_subset [OF i] by auto
  have 1: "ch_create hc (Addr tc, Addr arrc) junk 0 = Inr (Addr tc, empty_table hc tc arrc 0)"
    using assms(2) by (rule ch_create_ok) simp
  have 2: "ch_create hc (Addr tc, NULL) junk C = Inr (NULL, hc)"
    using assms(1) by (rule ch_create_no_slots [of hc tc])
  have 3: "ch_put h (Addr a, NULL) (Addr t) key val = Some (Inr (val, h))"
    using tab ne absent assms(5) by (rule ch_put_no_key [of h t arr css key a])
  show ?thesis
    using 1 2 3 by simp
qed

theorem allocation_failure_witness:
  "table_inv ex_heap 1 2 [[ex_a, ex_b]] \<and>
   ch_create Map.empty (Addr 1, NULL) (\<lambda>i. Addr 9) 4 = Inr (NULL, Map.empty) \<and>
   ch_create Map.empty (Addr 1, Addr 2) (\<lambda>i. Addr 9) 0 =
     Inr (Addr 1, empty_table Map.empty 1 2 0) \<and>
   ch_put ex_heap (Addr 7, NULL) (Addr 1) ''c'' (Addr 300) = Some (Inr (Addr 300, ex_heap))"
proof -
  have 1: "(Map.empty :: heap) 1 = None" "(1 :: nat) \<noteq> 2"
    by simp_all
  have 2: "''c'' \<notin> n_key ` set (concat [[ex_a, ex_b]])"
    by (simp add: ex_a_def ex_b_def)
  have 3: "ex_heap 7 = None"
    by (simp add: ex_heap_def)
  show ?thesis
    using allocation_failure [where hc = Map.empty and tc = 1 and arrc = 2 and h = ex_heap
        and t = 1 and arr = 2 and css = "[[ex_a, ex_b]]" and key = "''c''" and a = 7
        and junk = "\<lambda>i. Addr 9" and C = 4 and val = "Addr 300", OF 1 ex_heap_inv 2 3]
      ex_heap_inv
    by simp
qed

text \<open>
  The claim as stated fails twice. \<^verbatim>\<open>ch_create\<close> with capacity zero returns a table, not a
  failure, when \<^verbatim>\<open>malloc\<close> returns blocks. And a put whose key copy cannot be allocated
  returns the value reference, exactly what the same put returns when it succeeds, while
  the table does not hold the key afterwards.
\<close>

theorem failure_not_reported_counterexample:
  "ch_create Map.empty (Addr 1, Addr 2) (\<lambda>i. Addr 9) 0 =
     Inr (Addr 1, [1 \<mapsto> Table \<lparr>size_tab = 0, p_entries = Addr 2\<rparr>, 2 \<mapsto> Slots []]) \<and>
   ch_put ex_heap (Addr 7, NULL) (Addr 1) ''c'' (Addr 300) = Some (Inr (Addr 300, ex_heap)) \<and>
   map_option (map_sum id fst) (ch_put ex_heap (Addr 7, Addr 8) (Addr 1) ''c'' (Addr 300)) =
     Some (Inr (Addr 300)) \<and>
   ch_get ex_heap (Addr 1) ''c'' = Some (Inr NULL)"
proof -
  have tab: "table_abs ex_heap 1 2 [[ex_a, ex_b]]"
    using ex_heap_inv by (simp add: table_inv_def)
  have 1: "ch_create Map.empty (Addr 1, Addr 2) (\<lambda>i. Addr 9) 0 =
     Inr (Addr 1, [1 \<mapsto> Table \<lparr>size_tab = 0, p_entries = Addr 2\<rparr>, 2 \<mapsto> Slots []])"
    using ch_create_ok [of 1 2 0 Map.empty "\<lambda>i. Addr 9"] by (simp add: empty_table_def)
  have absent: "''c'' \<notin> n_key ` set ([[ex_a, ex_b]] ! slot_of (of_nat (length [[ex_a, ex_b]])) ''c'')"
    by (simp add: slot_of_one ex_a_def ex_b_def)
  have 2: "ch_put ex_heap (Addr 7, NULL) (Addr 1) ''c'' (Addr 300) = Some (Inr (Addr 300, ex_heap))"
    by (rule ch_put_no_key [of ex_heap 1 2 "[[ex_a, ex_b]]" "''c''" 7, OF tab _ absent])
       (simp_all add: ex_heap_def)
  have 3: "ch_put ex_heap (Addr 7, Addr 8) (Addr 1) ''c'' (Addr 300) =
      Some (Inr (Addr 300, put_heap ex_heap 2 [[ex_a, ex_b]] 0 (new_node 7 8 ''c'' (Addr 300))))"
    using ch_put_absent(1) [OF tab _ absent, of 7 8 "Addr 300"]
    by (simp add: ex_heap_def slot_of_one)
  have 4: "ch_get ex_heap (Addr 1) ''c'' = Some (Inr NULL)"
    using ch_get_lookup [OF tab, of "''c''"] by (simp add: slot_of_one ex_a_def ex_b_def)
  show ?thesis
    using 1 2 3 4 by simp
qed

subsection \<open>The claims about clear and destroy\<close>

lemmas eval_defs = heap_defs clear_def ch_clear_def clear_loop.simps ch_destroy_def
  sizeof_pointer_def sizeof_t_property_def ch_get_def ch_put_def get_loop.simps put_loop.simps
  slot_of_one

lemma ch_clear_ex_heap: "ch_clear ex_heap (Addr 1) = Inr ex_cleared"
  by (simp add: eval_defs ex_heap_def ex_cleared_def fun_upd_twist)

text \<open>
  C2 at a table of one slot whose chain holds two entries. After \<^verbatim>\<open>ch_clear\<close> the slot is
  not empty: it still holds the address of the first entry, whose block is released. The
  second entry of the chain and its key are still allocated. A get or a put that follows
  reads the released block.
\<close>

theorem ch_clear_leaves_dangling:
  "ch_clear ex_heap (Addr 1) = Inr ex_cleared \<and>
   ex_cleared 2 = Some (Slots [Addr 3]) \<and> ex_cleared 3 = None \<and>
   ex_cleared 5 = ex_heap 5 \<and> ex_cleared 6 = ex_heap 6 \<and> ex_heap 5 \<noteq> None \<and> ex_heap 6 \<noteq> None \<and>
   ch_get ex_cleared (Addr 1) ''a'' = Some (Inl BadDeref) \<and>
   ch_put ex_cleared (Addr 7, Addr 8) (Addr 1) ''c'' (Addr 300) = Some (Inl BadDeref)"
proof -
  have "ch_get ex_cleared (Addr 1) ''a'' = Some (Inl BadDeref)"
    by (simp add: eval_defs ex_heap_def ex_cleared_def)
  moreover have "ch_put ex_cleared (Addr 7, Addr 8) (Addr 1) ''c'' (Addr 300) = Some (Inl BadDeref)"
    by (simp add: eval_defs ex_heap_def ex_cleared_def)
  ultimately show ?thesis
    using ch_clear_ex_heap by (simp add: ex_heap_def ex_cleared_def)
qed

lemma ch_destroy_skips_clear:
  "ch_destroy h p_table =
     (case load_table h p_table of
        Inl f \<Rightarrow> Inl f
      | Inr t \<Rightarrow>
          (case (if p_entries t \<noteq> NULL
                 then (case free h (p_entries t) of
                         Inl f \<Rightarrow> Inl f
                       | Inr h2 \<Rightarrow> store_table h2 p_table (t\<lparr>p_entries := NULL\<rparr>))
                 else Inr h) of
             Inl f \<Rightarrow> Inl f
           | Inr h3 \<Rightarrow> if p_table \<noteq> NULL then free h3 p_table else Inr h3))"
  by (simp add: ch_destroy_def sizeof_pointer_def sizeof_t_property_def)

text \<open>
  C3 at the same table. \<^verbatim>\<open>ch_destroy\<close> releases the slot array and the table and nothing
  else: both entries and their keys stay allocated. Clear followed by the two releases
  also releases the first entry and its key.
\<close>

theorem ch_destroy_not_clear:
  "ch_destroy ex_heap (Addr 1) = Inr (ex_heap(2 := None, 1 := None)) \<and>
   destroy_spec ex_heap (Addr 1) = Inr (ex_cleared(2 := None, 1 := None)) \<and>
   (ex_heap(2 := None, 1 := None)) 3 = ex_heap 3 \<and> ex_heap 3 \<noteq> None \<and>
   (ex_cleared(2 := None, 1 := None)) 3 = None \<and>
   ch_destroy ex_heap (Addr 1) \<noteq> destroy_spec ex_heap (Addr 1)"
proof -
  have 1: "ch_destroy ex_heap (Addr 1) = Inr (ex_heap(2 := None, 1 := None))"
    by (simp add: ch_destroy_skips_clear heap_defs ex_heap_def fun_upd_twist)
  have 2: "destroy_spec ex_heap (Addr 1) = Inr (ex_cleared(2 := None, 1 := None))"
    unfolding destroy_spec_def ch_clear_ex_heap
    by (simp add: heap_defs ex_heap_def ex_cleared_def)
  have 3: "(ex_heap(2 := None, 1 := None)) 3 \<noteq> (ex_cleared(2 := None, 1 := None)) 3"
    by (simp add: ex_heap_def ex_cleared_def)
  then have "ex_heap(2 := None, 1 := None) \<noteq> ex_cleared(2 := None, 1 := None)"
    by metis
  then show ?thesis
    using 1 2 by (simp add: ex_heap_def ex_cleared_def)
qed

subsection \<open>The claim about the invariants\<close>

lemma slot_of_two: "slot_of 2 ''a'' = 1" "slot_of 2 ''b'' = 0"
  by (simp_all add: slot_of_def hash_foldl char_to_ulong_def)

lemma run_step_create: "ch_create Map.empty (Addr 1, Addr 2) (\<lambda>i. Addr 9) 2 = Inr (Addr 1, run_created)"
proof -
  have u: "unat (2 :: 64 word) = 2"
    by simp
  have "replicate (unat (2 :: 64 word)) NULL = [NULL, NULL]"
    unfolding u by (simp add: numeral_2_eq_2)
  then have "empty_table Map.empty 1 2 2 = run_created"
    by (simp add: empty_table_def run_created_def)
  then show ?thesis
    using ch_create_ok [of 1 2 2 Map.empty "\<lambda>i. Addr 9"] by simp
qed

lemma run_step_put:
  "ch_put run_created (Addr 3, Addr 4) (Addr 1) ''a'' (Addr 100) = Some (Inr (Addr 100, run_put))"
proof -
  let ?hc = "run_created(4 \<mapsto> Chars ''a'',
               3 \<mapsto> Property \<lparr>p_key = Addr 4, p_value = Addr 100, p_next = NULL\<rparr>)"
  have lt: "load_table run_created (Addr 1) = Inr \<lparr>size_tab = 2, p_entries = Addr 2\<rparr>"
    by (simp add: heap_defs run_created_def)
  have ls: "load_slot run_created (Addr 2) 1 = Inr NULL"
    by (simp add: heap_defs run_created_def)
  have c: "construct run_created (Addr 3, Addr 4) ''a'' (Addr 100) = Inr (Addr 3, ?hc)"
    by (rule construct_ok) simp
  have ss: "store_slot ?hc (Addr 2) 1 (Addr 3) = Inr run_put"
    by (auto simp: heap_defs run_created_def run_put_def fun_eq_iff)
  show ?thesis
    by (simp add: ch_put_def lt ls c ss slot_of_two del: One_nat_def fun_upd_apply)
qed

lemma run_step_clear: "ch_clear run_put (Addr 1) = Inr run_cleared"
proof -
  have "run_put(4 := None, 3 := None) = run_cleared"
    by (auto simp: run_put_def run_cleared_def fun_eq_iff)
  moreover have "ch_clear run_put (Addr 1) = Inr (run_put(4 := None, 3 := None))"
    by (simp add: heap_defs clear_def ch_clear_def clear_loop.simps run_put_def fun_upd_twist)
  ultimately show ?thesis
    by simp
qed

lemma run_step_reuse:
  "ch_put run_cleared (Addr 3, Addr 4) (Addr 1) ''b'' (Addr 200) = Some (Inr (Addr 200, run_reused))"
proof -
  let ?hc = "run_cleared(4 \<mapsto> Chars ''b'',
               3 \<mapsto> Property \<lparr>p_key = Addr 4, p_value = Addr 200, p_next = NULL\<rparr>)"
  have lt: "load_table run_cleared (Addr 1) = Inr \<lparr>size_tab = 2, p_entries = Addr 2\<rparr>"
    by (simp add: heap_defs run_cleared_def)
  have ls: "load_slot run_cleared (Addr 2) 0 = Inr NULL"
    by (simp add: heap_defs run_cleared_def)
  have c: "construct run_cleared (Addr 3, Addr 4) ''b'' (Addr 200) = Inr (Addr 3, ?hc)"
    by (rule construct_ok) simp
  have ss: "store_slot ?hc (Addr 2) 0 (Addr 3) = Inr run_reused"
    by (auto simp: heap_defs run_cleared_def run_reused_def fun_eq_iff)
  show ?thesis
    by (simp add: ch_put_def lt ls c ss slot_of_two del: One_nat_def fun_upd_apply)
qed

text \<open>
  C9 on this run. Every step returns. In the last heap slot 1 holds the address of an
  entry whose key is \<open>b\<close>, and \<open>b\<close> hashes, modulo the capacity 2, to slot 0: the entry
  that the put linked into slot 0 took the block that the pointer left in slot 1 by
  \<^verbatim>\<open>ch_clear\<close> still names.
\<close>

theorem clear_then_put_breaks_slots:
  "ch_create Map.empty (Addr 1, Addr 2) (\<lambda>i. Addr 9) 2 = Inr (Addr 1, run_created) \<and>
   ch_put run_created (Addr 3, Addr 4) (Addr 1) ''a'' (Addr 100) = Some (Inr (Addr 100, run_put)) \<and>
   ch_clear run_put (Addr 1) = Inr run_cleared \<and>
   run_cleared 3 = None \<and> run_cleared 4 = None \<and>
   ch_put run_cleared (Addr 3, Addr 4) (Addr 1) ''b'' (Addr 200) = Some (Inr (Addr 200, run_reused)) \<and>
   load_slot run_reused (Addr 2) 1 = Inr (head_ptr [run_b]) \<and> chain run_reused [run_b] \<and>
   unat (hash (n_key run_b) mod 2) = 0 \<and> slot_of 2 (n_key run_b) = 0"
proof -
  have "load_slot run_reused (Addr 2) 1 = Inr (head_ptr [run_b])"
    by (simp add: heap_defs run_reused_def run_b_def)
  moreover have "chain run_reused [run_b]"
    by (simp add: run_reused_def run_b_def node_cell_def)
  moreover have "unat (hash (n_key run_b) mod 2) = 0"
    by (simp add: run_b_def hash_foldl char_to_ulong_def)
  moreover have "run_cleared 3 = None" "run_cleared 4 = None"
    by (simp_all add: run_cleared_def)
  ultimately show ?thesis
    using run_step_create run_step_put run_step_clear run_step_reuse slot_of_two(2)
    by (simp add: run_b_def)
qed

end
